theory Spec2Isabelle
  imports Main "HOL-Library.Word" "HOL-Library.Monad_Syntax"
begin

unbundle bit_operations_syntax

section \<open>Branch predictors of branchPredictors.cpp\<close>

text \<open>
  The three stateful predictor classes of \<^verbatim>\<open>branchPredictors.cpp\<close>
  (\<^verbatim>\<open>LocalBranchPredictor\<close>, \<^verbatim>\<open>GshareBranchPredictor\<close>,
  \<^verbatim>\<open>TournamentBranchPredictor\<close>) as state-passing functions.

  \<^item> A C++ \<^verbatim>\<open>int\<close> is a 32-bit word; \<^verbatim>\<open><\<close>, \<^verbatim>\<open>>=\<close> on it are the signed
    comparisons \<open><s\<close>, \<open>\<le>s\<close>.
  \<^item> \<^verbatim>\<open>ADDRINT\<close> (declared in \<^verbatim>\<open>pin.H\<close>) is Pin's unsigned address-sized integer,
    taken here at its 64-bit width. In \<^verbatim>\<open>m & branchPC\<close> the \<^verbatim>\<open>int\<close> operand is
    converted to \<^verbatim>\<open>ADDRINT\<close> (sign extension, \<open>scast\<close>), and storing the result in an
    \<^verbatim>\<open>int\<close> keeps the low 32 bits (\<open>ucast\<close>).
  \<^item> \<^verbatim>\<open>vector<int>\<close> is a list; \<^verbatim>\<open>PHT.at(i)\<close> throws \<^verbatim>\<open>std::out_of_range\<close> when
    the index, converted to the unsigned \<^verbatim>\<open>size_type\<close>, is not below the size. A thrown
    exception is the result \<open>None\<close>.
  \<^item> \<^verbatim>\<open>PHT.push_back(x)\<close> throws \<^verbatim>\<open>std::length_error\<close> or \<^verbatim>\<open>std::bad_alloc\<close>
    when the vector cannot grow, and \<^verbatim>\<open>new\<close> throws \<^verbatim>\<open>std::bad_alloc\<close> when there is
    no storage for the object; these are \<open>None\<close> too.
  \<^item> \<^verbatim>\<open>UINT64 numEntries\<close> is only compared and counted up to, so it is a \<open>nat\<close>. A
    vector's size is a 64-bit \<^verbatim>\<open>size_type\<close>, so no table of \<open>2 ^ 64\<close> entries or more is
    ever built.
\<close>

type_synonym cint = "32 word"
type_synonym ADDRINT = "64 word"

subsection \<open>Vector access\<close>

text \<open>\<^verbatim>\<open>v.at(i)\<close> with an \<^verbatim>\<open>int\<close> index: a negative index converts to a huge
  \<^verbatim>\<open>size_type\<close> and throws like any index past the end.\<close>

definition at_vec :: "cint list \<Rightarrow> cint \<Rightarrow> cint option" where
  "at_vec v i = (if 0 \<le> sint i \<and> nat (sint i) < length v then Some (v ! nat (sint i)) else None)"

text \<open>\<^verbatim>\<open>if (v.at(i) < 0b11) { v[i]++; }\<close>\<close>

definition inc_below_3 :: "cint list \<Rightarrow> cint \<Rightarrow> cint list option" where
  "inc_below_3 v i =
     do { c \<leftarrow> at_vec v i;
          if c <s 3 then Some (v[nat (sint i) := v ! nat (sint i) + 1]) else Some v }"

text \<open>\<^verbatim>\<open>if (v.at(i) > 0b00) { v[i]--; }\<close>\<close>

definition dec_above_0 :: "cint list \<Rightarrow> cint \<Rightarrow> cint list option" where
  "dec_above_0 v i =
     do { c \<leftarrow> at_vec v i;
          if 0 <s c then Some (v[nat (sint i) := v ! nat (sint i) - 1]) else Some v }"

text \<open>What the run-time system gives a predictor object when it is created: the
  indeterminate content of the member \<^verbatim>\<open>PHTsize\<close>, which has no initialiser, and the
  number of elements up to which the object's vector \<^verbatim>\<open>PHT\<close> can grow (at most
  \<^verbatim>\<open>max_size()\<close>, less when memory runs out), a \<^verbatim>\<open>size_type\<close> value.\<close>

record storage =
  uninit :: cint
  capacity :: "64 word"

text \<open>\<^verbatim>\<open>v.push_back(x)\<close>\<close>

definition push_back :: "64 word \<Rightarrow> cint list \<Rightarrow> cint \<Rightarrow> cint list option" where
  "push_back cap v x = (if length v < unat cap then Some (v @ [x]) else None)"

text \<open>The constructors' loop
  \<^verbatim>\<open>for (UINT64 i = 0; i < numEntries; i ++) { PHT.push_back(0b11); }\<close>\<close>

function push_back_loop :: "64 word \<Rightarrow> nat \<Rightarrow> nat \<Rightarrow> cint list \<Rightarrow> cint list option" where
  "push_back_loop cap i numEntries v =
     (if i < numEntries then
        (case push_back cap v 3 of
           None \<Rightarrow> None
         | Some v' \<Rightarrow> push_back_loop cap (i + 1) numEntries v')
      else Some v)"
  by pat_completeness auto
termination
  by (relation "measure (\<lambda>(cap, i, n, v). n - i)") auto

declare push_back_loop.simps [simp del]

subsection \<open>Local predictor\<close>

record LocalBranchPredictor =
  L_numEntries :: nat
  L_PHTsize :: cint
  L_LHR :: "cint list"
  L_PHT :: "cint list"

text \<open>The constructor assigns \<^verbatim>\<open>PHTsize\<close> only when the size is 4096, 1024 or 128; for any
  other size the member keeps the indeterminate value it had. \<^verbatim>\<open>int LHR[128] = {}\<close> is
  128 zeros. The constructor returns the object unless the loop throws.\<close>

definition LocalBranchPredictor :: "nat \<Rightarrow> storage \<Rightarrow> LocalBranchPredictor option" where
  "LocalBranchPredictor numberOfEntries m =
     (let s = \<lparr>L_numEntries = numberOfEntries, L_PHTsize = uninit m,
               L_LHR = replicate 128 0, L_PHT = []\<rparr>;
          s = (if L_numEntries s = 4096 then s\<lparr>L_PHTsize := 4095\<rparr> else s);
          s = (if L_numEntries s = 1024 then s\<lparr>L_PHTsize := 1023\<rparr> else s);
          s = (if L_numEntries s = 128 then s\<lparr>L_PHTsize := 127\<rparr> else s)
      in do { v \<leftarrow> push_back_loop (capacity m) 0 (L_numEntries s) (L_PHT s);
              Some (s\<lparr>L_PHT := v\<rparr>) })"

definition L_getPrediction ::
  "LocalBranchPredictor \<Rightarrow> ADDRINT \<Rightarrow> (bool \<times> LocalBranchPredictor) option" where
  "L_getPrediction s branchPC =
     (let LSB = (ucast (127 AND branchPC) :: cint);
          index = L_LHR s ! nat (sint LSB)
      in do { c \<leftarrow> at_vec (L_PHT s) index;
              if 2 \<le>s c then Some (True, s) else Some (False, s) })"

definition L_train ::
  "LocalBranchPredictor \<Rightarrow> ADDRINT \<Rightarrow> bool \<Rightarrow> LocalBranchPredictor option" where
  "L_train s branchPC branchWasTaken =
     (let LSB = (ucast (127 AND branchPC) :: cint);
          index = L_LHR s ! nat (sint LSB)
      in if branchWasTaken then
           do { v \<leftarrow> inc_below_3 (L_PHT s) index;
                Some (s\<lparr>L_PHT := v,
                        L_LHR := (L_LHR s)[nat (sint LSB) := (push_bit 1 index + 1) AND L_PHTsize s]\<rparr>) }
         else
           do { v \<leftarrow> dec_above_0 (L_PHT s) index;
                Some (s\<lparr>L_PHT := v,
                        L_LHR := (L_LHR s)[nat (sint LSB) := push_bit 1 index AND L_PHTsize s]\<rparr>) })"

subsection \<open>Gshare predictor\<close>

record GshareBranchPredictor =
  G_numEntries :: nat
  G_PHTsize :: cint
  G_GHR :: cint
  G_PHT :: "cint list"

definition GshareBranchPredictor :: "nat \<Rightarrow> storage \<Rightarrow> GshareBranchPredictor option" where
  "GshareBranchPredictor numberOfEntries m =
     (let s = \<lparr>G_numEntries = numberOfEntries, G_PHTsize = uninit m, G_GHR = 0, G_PHT = []\<rparr>;
          s = (if G_numEntries s = 4096 then s\<lparr>G_PHTsize := 4095\<rparr> else s);
          s = (if G_numEntries s = 1024 then s\<lparr>G_PHTsize := 1023\<rparr> else s);
          s = (if G_numEntries s = 128 then s\<lparr>G_PHTsize := 127\<rparr> else s)
      in do { v \<leftarrow> push_back_loop (capacity m) 0 (G_numEntries s) (G_PHT s);
              Some (s\<lparr>G_PHT := v\<rparr>) })"

definition G_getPrediction ::
  "GshareBranchPredictor \<Rightarrow> ADDRINT \<Rightarrow> (bool \<times> GshareBranchPredictor) option" where
  "G_getPrediction s branchPC =
     (let LSB = (ucast (scast (G_PHTsize s) AND branchPC) :: cint);
          index = LSB XOR G_GHR s
      in do { c \<leftarrow> at_vec (G_PHT s) index;
              if 2 \<le>s c then Some (True, s) else Some (False, s) })"

definition G_train ::
  "GshareBranchPredictor \<Rightarrow> ADDRINT \<Rightarrow> bool \<Rightarrow> GshareBranchPredictor option" where
  "G_train s branchPC branchWasTaken =
     (let LSB = (ucast (scast (G_PHTsize s) AND branchPC) :: cint);
          index = LSB XOR G_GHR s
      in if branchWasTaken then
           do { v \<leftarrow> inc_below_3 (G_PHT s) index;
                Some (s\<lparr>G_PHT := v, G_GHR := (push_bit 1 index + 1) AND G_PHTsize s\<rparr>) }
         else
           do { v \<leftarrow> dec_above_0 (G_PHT s) index;
                Some (s\<lparr>G_PHT := v, G_GHR := push_bit 1 index AND G_PHTsize s\<rparr>) })"

subsection \<open>Tournament predictor\<close>

text \<open>The two sub-predictors are created by the constructor and reached through pointers
  nobody else holds, so they are fields of the state. \<^verbatim>\<open>used\<close> is a data member
  (\<^verbatim>\<open>int used = 2\<close>, "1 is local 0 is gshare"): \<^verbatim>\<open>getPrediction\<close> writes it and
  \<^verbatim>\<open>train\<close> reads it.\<close>

record TournamentBranchPredictor =
  T_numEntries :: nat
  gbranch :: GshareBranchPredictor
  lbranch :: LocalBranchPredictor
  T_PHTsize :: cint
  used :: cint
  T_PHT :: "cint list"

text \<open>Each of the three objects has storage of its own. \<open>new_l\<close> and \<open>new_g\<close> are
  what the two \<^verbatim>\<open>new\<close> expressions of the constructor obtain: \<open>None\<close> when
  \<^verbatim>\<open>new\<close> throws, the storage of the sub-predictor otherwise. The constructor fills its
  own table, then builds the local predictor, then the gshare predictor.\<close>

definition TournamentBranchPredictor ::
  "nat \<Rightarrow> storage \<Rightarrow> storage option \<Rightarrow> storage option \<Rightarrow> TournamentBranchPredictor option" where
  "TournamentBranchPredictor numberOfEntries m new_l new_g =
     (let n = numberOfEntries;
          p = uninit m;
          p = (if n = 4096 then 4095 else p);
          p = (if n = 1024 then 1023 else p);
          p = (if n = 128 then 127 else p)
      in do { v \<leftarrow> push_back_loop (capacity m) 0 n [];
              ml \<leftarrow> new_l;
              l \<leftarrow> LocalBranchPredictor n ml;
              mg \<leftarrow> new_g;
              g \<leftarrow> GshareBranchPredictor n mg;
              Some \<lparr>T_numEntries = n, gbranch = g, lbranch = l, T_PHTsize = p, used = 2,
                    T_PHT = v\<rparr> })"

definition T_getPrediction ::
  "TournamentBranchPredictor \<Rightarrow> ADDRINT \<Rightarrow> (bool \<times> TournamentBranchPredictor) option" where
  "T_getPrediction s branchPC =
     (let LSB = (ucast (scast (T_PHTsize s) AND branchPC) :: cint)
      in do { c \<leftarrow> at_vec (T_PHT s) LSB;
              if 2 \<le>s c then
                do { let s = s\<lparr>used := 0\<rparr>;
                     (r, g) \<leftarrow> G_getPrediction (gbranch s) branchPC;
                     Some (r, s\<lparr>gbranch := g\<rparr>) }
              else
                do { let s = s\<lparr>used := 1\<rparr>;
                     (r, l) \<leftarrow> L_getPrediction (lbranch s) branchPC;
                     Some (r, s\<lparr>lbranch := l\<rparr>) } })"

text \<open>The selector update of \<^verbatim>\<open>train\<close> after a taken branch (lines 280-302) and after
  a branch that was not taken (lines 312-334), on the selector table alone. \<^verbatim>\<open>&&\<close> is
  short-circuit, so \<^verbatim>\<open>PHT.at(LSB)\<close> in an \<^verbatim>\<open>else if\<close> is evaluated only when the
  flag before it holds.\<close>

definition select_taken :: "cint \<Rightarrow> bool \<Rightarrow> bool \<Rightarrow> cint list \<Rightarrow> cint \<Rightarrow> cint list option" where
  "select_taken u gresult lresult v LSB =
     (if u = 0 then
        (if \<not> gresult \<and> lresult then dec_above_0 v LSB
         else if gresult then inc_below_3 v LSB
         else Some v)
      else if u = 1 then
        (if gresult \<and> \<not> lresult then inc_below_3 v LSB
         else if lresult then dec_above_0 v LSB
         else Some v)
      else Some v)"

definition select_not_taken :: "cint \<Rightarrow> bool \<Rightarrow> bool \<Rightarrow> cint list \<Rightarrow> cint \<Rightarrow> cint list option" where
  "select_not_taken u gresult lresult v LSB =
     (if u = 0 then
        (if gresult \<and> \<not> lresult then dec_above_0 v LSB
         else if \<not> gresult then inc_below_3 v LSB
         else Some v)
      else if u = 1 then
        (if \<not> gresult \<and> lresult then inc_below_3 v LSB
         else if \<not> lresult then dec_above_0 v LSB
         else Some v)
      else Some v)"

text \<open>\<^verbatim>\<open>train\<close> has two consecutive blocks, \<^verbatim>\<open>if (branchWasTaken)\<close> and
  \<^verbatim>\<open>if (! branchWasTaken)\<close>; each trains gshare, then local, then updates the
  selector.\<close>

definition T_train ::
  "TournamentBranchPredictor \<Rightarrow> ADDRINT \<Rightarrow> bool \<Rightarrow> TournamentBranchPredictor option" where
  "T_train s branchPC branchWasTaken =
     do { (gresult, g) \<leftarrow> G_getPrediction (gbranch s) branchPC;
          let s = s\<lparr>gbranch := g\<rparr>;
          (lresult, l) \<leftarrow> L_getPrediction (lbranch s) branchPC;
          let s = s\<lparr>lbranch := l\<rparr>;
          let LSB = (ucast (scast (T_PHTsize s) AND branchPC) :: cint);
          s \<leftarrow> (if branchWasTaken then
                 do { g \<leftarrow> G_train (gbranch s) branchPC True;
                      l \<leftarrow> L_train (lbranch s) branchPC True;
                      v \<leftarrow> select_taken (used s) gresult lresult (T_PHT s) LSB;
                      Some (s\<lparr>gbranch := g, lbranch := l, T_PHT := v\<rparr>) }
               else Some s);
          (if \<not> branchWasTaken then
             do { g \<leftarrow> G_train (gbranch s) branchPC False;
                  l \<leftarrow> L_train (lbranch s) branchPC False;
                  v \<leftarrow> select_not_taken (used s) gresult lresult (T_PHT s) LSB;
                  Some (s\<lparr>gbranch := g, lbranch := l, T_PHT := v\<rparr>) }
           else Some s) }"

subsection \<open>Call sequences\<close>

text \<open>A predictor is driven by calls of its two methods; \<open>run\<close> applies a list of calls
  in order and is \<open>None\<close> as soon as one of them throws.\<close>

datatype call = Predict ADDRINT | Train ADDRINT bool

fun L_step :: "LocalBranchPredictor \<Rightarrow> call \<Rightarrow> LocalBranchPredictor option" where
  "L_step s (Predict pc) = map_option snd (L_getPrediction s pc)"
| "L_step s (Train pc b) = L_train s pc b"

fun L_run :: "LocalBranchPredictor \<Rightarrow> call list \<Rightarrow> LocalBranchPredictor option" where
  "L_run s [] = Some s"
| "L_run s (c # cs) = (case L_step s c of None \<Rightarrow> None | Some s' \<Rightarrow> L_run s' cs)"

fun G_step :: "GshareBranchPredictor \<Rightarrow> call \<Rightarrow> GshareBranchPredictor option" where
  "G_step s (Predict pc) = map_option snd (G_getPrediction s pc)"
| "G_step s (Train pc b) = G_train s pc b"

fun G_run :: "GshareBranchPredictor \<Rightarrow> call list \<Rightarrow> GshareBranchPredictor option" where
  "G_run s [] = Some s"
| "G_run s (c # cs) = (case G_step s c of None \<Rightarrow> None | Some s' \<Rightarrow> G_run s' cs)"

fun T_step :: "TournamentBranchPredictor \<Rightarrow> call \<Rightarrow> TournamentBranchPredictor option" where
  "T_step s (Predict pc) = map_option snd (T_getPrediction s pc)"
| "T_step s (Train pc b) = T_train s pc b"

fun T_run :: "TournamentBranchPredictor \<Rightarrow> call list \<Rightarrow> TournamentBranchPredictor option" where
  "T_run s [] = Some s"
| "T_run s (c # cs) = (case T_step s c of None \<Rightarrow> None | Some s' \<Rightarrow> T_run s' cs)"

fun is_Train :: "call \<Rightarrow> bool" where
  "is_Train (Train pc b) = True"
| "is_Train (Predict pc) = False"

subsection \<open>The specification's vocabulary\<close>

text \<open>The table sizes the specification supports, and its \<open>IndexMask = N - 1\<close>.\<close>

definition valid_size :: "nat \<Rightarrow> bool" where
  "valid_size n \<longleftrightarrow> n = 128 \<or> n = 1024 \<or> n = 4096"

definition IndexMask :: "nat \<Rightarrow> cint" where
  "IndexMask n = of_nat (n - 1)"

text \<open>An \<^verbatim>\<open>int\<close> that is a legal index of a table of \<open>n\<close> entries.\<close>

definition in_range :: "nat \<Rightarrow> cint \<Rightarrow> bool" where
  "in_range n i \<longleftrightarrow> 0 \<le> sint i \<and> nat (sint i) < n"

text \<open>The specification's \<open>bump(i, outcome)\<close> of section 4.1: "if outcome is taken,
  increment counter[i] if <3; else decrement if >0".\<close>

definition bump :: "cint list \<Rightarrow> nat \<Rightarrow> bool \<Rightarrow> cint list" where
  "bump v i outcome =
     (if outcome then (if sint (v ! i) < 3 then v[i := v ! i + 1] else v)
      else (if 0 < sint (v ! i) then v[i := v ! i - 1] else v))"

text \<open>Every counter of a table is one of 0, 1, 2, 3.\<close>

definition counters_ok :: "cint list \<Rightarrow> bool" where
  "counters_ok v = list_all (\<lambda>c. 0 \<le> sint c \<and> sint c \<le> 3) v"

text \<open>The shape of a predictor of table size \<open>n\<close>: the mask is \<open>n - 1\<close>, the tables have
  their sizes, and every history value is a legal index.\<close>

definition L_inv :: "nat \<Rightarrow> LocalBranchPredictor \<Rightarrow> bool" where
  "L_inv n s \<longleftrightarrow>
     L_numEntries s = n \<and> L_PHTsize s = IndexMask n \<and> length (L_LHR s) = 128 \<and>
     length (L_PHT s) = n \<and> list_all (in_range n) (L_LHR s)"

definition G_inv :: "nat \<Rightarrow> GshareBranchPredictor \<Rightarrow> bool" where
  "G_inv n s \<longleftrightarrow>
     G_numEntries s = n \<and> G_PHTsize s = IndexMask n \<and> length (G_PHT s) = n \<and>
     in_range n (G_GHR s)"

definition T_inv :: "nat \<Rightarrow> TournamentBranchPredictor \<Rightarrow> bool" where
  "T_inv n s \<longleftrightarrow>
     T_numEntries s = n \<and> T_PHTsize s = IndexMask n \<and> length (T_PHT s) = n \<and>
     G_inv n (gbranch s) \<and> L_inv n (lbranch s)"

definition T_counters_ok :: "TournamentBranchPredictor \<Rightarrow> bool" where
  "T_counters_ok s \<longleftrightarrow>
     counters_ok (T_PHT s) \<and> counters_ok (G_PHT (gbranch s)) \<and> counters_ok (L_PHT (lbranch s))"

text \<open>The specification's index formulas, on natural numbers: the history update
  \<open>((idx << 1) | (outcome ? 1 : 0)) & IndexMask\<close> of sections 4.3 and 4.4, the gshare index
  \<open>(address & IndexMask) XOR GHR\<close>, the local bucket \<open>address & bucket_mask\<close> and the
  local index \<open>LHR[bucket] & IndexMask\<close>, and the selector index
  \<open>address & IndexMask\<close>.\<close>

definition spec_shift_in :: "nat \<Rightarrow> nat \<Rightarrow> bool \<Rightarrow> nat" where
  "spec_shift_in n idx outcome = (push_bit 1 idx OR (if outcome then 1 else 0)) AND (n - 1)"

definition spec_gshare_idx :: "nat \<Rightarrow> cint \<Rightarrow> ADDRINT \<Rightarrow> nat" where
  "spec_gshare_idx n ghr address = (unat address AND (n - 1)) XOR unat ghr"

definition spec_bucket :: "ADDRINT \<Rightarrow> nat" where
  "spec_bucket address = unat address AND 127"

definition spec_local_idx :: "nat \<Rightarrow> cint list \<Rightarrow> ADDRINT \<Rightarrow> nat" where
  "spec_local_idx n lhr address = unat (lhr ! spec_bucket address) AND (n - 1)"

definition spec_sel :: "nat \<Rightarrow> ADDRINT \<Rightarrow> nat" where
  "spec_sel n address = unat address AND (n - 1)"

text \<open>The specification's \<open>read(i)\<close> of section 4.1, "counter[i] >= 2", and the
  predictions of the two sub-predictors written with it.\<close>

definition spec_read :: "cint list \<Rightarrow> nat \<Rightarrow> bool" where
  "spec_read v i \<longleftrightarrow> 2 \<le> sint (v ! i)"

definition spec_gshare_predict :: "nat \<Rightarrow> GshareBranchPredictor \<Rightarrow> ADDRINT \<Rightarrow> bool" where
  "spec_gshare_predict n g address = spec_read (G_PHT g) (spec_gshare_idx n (G_GHR g) address)"

definition spec_local_predict :: "nat \<Rightarrow> LocalBranchPredictor \<Rightarrow> ADDRINT \<Rightarrow> bool" where
  "spec_local_predict n l address = spec_read (L_PHT l) (spec_local_idx n (L_LHR l) address)"

text \<open>The predictors the specification describes right after construction with table
  size \<open>n\<close>: mask \<open>n - 1\<close>, zero history, every counter 3, and \<^verbatim>\<open>used\<close> at its
  initial 2.\<close>

definition fresh_local :: "nat \<Rightarrow> LocalBranchPredictor" where
  "fresh_local n =
     \<lparr>L_numEntries = n, L_PHTsize = IndexMask n, L_LHR = replicate 128 0, L_PHT = replicate n 3\<rparr>"

definition fresh_gshare :: "nat \<Rightarrow> GshareBranchPredictor" where
  "fresh_gshare n =
     \<lparr>G_numEntries = n, G_PHTsize = IndexMask n, G_GHR = 0, G_PHT = replicate n 3\<rparr>"

definition fresh_tournament :: "nat \<Rightarrow> TournamentBranchPredictor" where
  "fresh_tournament n =
     \<lparr>T_numEntries = n, gbranch = fresh_gshare n, lbranch = fresh_local n,
      T_PHTsize = IndexMask n, used = 2, T_PHT = replicate n 3\<rparr>"

text \<open>What a caller can observe of a tournament predictor about one address: the two
  sub-predictors' predictions, the \<^verbatim>\<open>used\<close> member and the selector counter of
  the address's bucket.\<close>

definition T_observe ::
  "nat \<Rightarrow> ADDRINT \<Rightarrow> TournamentBranchPredictor \<Rightarrow> bool \<times> bool \<times> cint \<times> cint" where
  "T_observe n address s =
     (spec_gshare_predict n (gbranch s) address, spec_local_predict n (lbranch s) address,
      used s, T_PHT s ! spec_sel n address)"

text \<open>A run of the harness, which calls \<^verbatim>\<open>getPrediction\<close> and then \<^verbatim>\<open>train\<close>
  for each branch (\<^verbatim>\<open>AtConditionalBranch\<close>), followed by the prediction for one more
  branch at address 11.\<close>

definition agree_trace :: "call list" where
  "agree_trace =
     [Predict 0, Train 0 False, Predict 0, Train 0 False, Predict 5, Train 5 True,
      Predict 11, Train 11 True, Predict 11]"

text \<open>The two history assignments of the \<^verbatim>\<open>train\<close> methods,
  \<^verbatim>\<open>((index<<1) + 1) & PHTsize\<close> after a taken branch and \<^verbatim>\<open>(index<<1) & PHTsize\<close>
  otherwise, as one expression (used to state what \<^verbatim>\<open>train\<close> stores).\<close>

definition shift_in :: "cint \<Rightarrow> cint \<Rightarrow> bool \<Rightarrow> cint" where
  "shift_in m index b = (if b then (push_bit 1 index + 1) AND m else push_bit 1 index AND m)"

section \<open>Words as indices\<close>

lemma uint_less_of_take_bit: "take_bit k (i::cint) = i \<Longrightarrow> uint i < 2 ^ k"
  by (metis take_bit_int_less_exp unsigned_take_bit_eq)

lemma take_bit_of_uint_less: "uint (i::cint) < 2 ^ k \<Longrightarrow> take_bit k i = i"
  by (simp add: word_uint_eq_iff unsigned_take_bit_eq take_bit_int_eq_self)

lemma sint_eq_uint_small:
  assumes "uint (i::cint) < 2 ^ 31"
  shows "sint i = uint i"
proof -
  have "- (2 ^ 31) \<le> uint i" by (rule order_trans [of _ 0]) simp_all
  then have "signed_take_bit 31 (uint i) = uint i"
    using assms by (rule signed_take_bit_int_eq_self)
  then show ?thesis by (simp add: sint_uint)
qed

lemma sint_eq_uint_nonneg:
  assumes "0 \<le> sint (i::cint)"
  shows "sint i = uint i"
proof (rule sint_eq_uint_small, rule ccontr)
  assume "\<not> uint i < 2 ^ 31"
  then have a: "sint i \<le> uint i - 4294967296"
    using signed_take_bit_int_less_eq [of 31 "uint i"] by (simp add: sint_uint)
  have b: "uint i < 4294967296" using uint_lt2p [of i] by simp
  from a b have "sint i < 0" by linarith
  then show False using assms by simp
qed

lemma sint_of_take_bit:
  assumes k: "k \<le> 31" and t: "take_bit k (i::cint) = i"
  shows "sint i = uint i" and "uint i < 2 ^ k"
proof -
  show u: "uint i < 2 ^ k" using t by (rule uint_less_of_take_bit)
  have "(2::int) ^ k \<le> 2 ^ 31" using k power_increasing [of k 31 "2::int"] by linarith
  then show "sint i = uint i" using u by (intro sint_eq_uint_small) linarith
qed

lemma take_bit_of_sint: "0 \<le> sint i \<Longrightarrow> sint i < 2 ^ k \<Longrightarrow> take_bit k (i::cint) = i"
  by (rule take_bit_of_uint_less) (simp add: sint_eq_uint_nonneg)

lemma in_range_iff_take_bit:
  assumes "k \<le> 31"
  shows "in_range (2 ^ k) i \<longleftrightarrow> take_bit k i = i"
proof
  assume "in_range (2 ^ k) i"
  then have a: "0 \<le> sint i" and b: "nat (sint i) < 2 ^ k" by (simp_all add: in_range_def)
  from a b have "sint i < 2 ^ k" by (simp add: nat_less_iff)
  with a show "take_bit k i = i" by (rule take_bit_of_sint)
next
  assume t: "take_bit k i = i"
  from sint_of_take_bit [OF assms t] have a: "sint i = uint i" and b: "uint i < 2 ^ k" .
  have e: "int (unat i) = uint i" by (rule uint_nat [symmetric])
  have "int (unat i) < int (2 ^ k)" unfolding e using b by simp
  then have "unat i < 2 ^ k" by (simp only: of_nat_less_iff)
  with a show "in_range (2 ^ k) i" unfolding in_range_def by simp
qed

lemma valid_size_mask:
  assumes "valid_size n"
  obtains k where "k \<le> 12" and "n = 2 ^ k" and "IndexMask n = mask k"
proof -
  from assms consider "n = 128" | "n = 1024" | "n = 4096" by (auto simp: valid_size_def)
  then show thesis
  proof cases
    case 1 then show thesis using that [of 7] by (simp add: IndexMask_def mask_eq_exp_minus_1)
  next
    case 2 then show thesis using that [of 10] by (simp add: IndexMask_def mask_eq_exp_minus_1)
  next
    case 3 then show thesis using that [of 12] by (simp add: IndexMask_def mask_eq_exp_minus_1)
  qed
qed

lemma masked_pc: "k \<le> 31 \<Longrightarrow> (ucast (scast (mask k :: cint) AND (pc :: ADDRINT)) :: cint) = ucast (take_bit k pc)"
  by (rule bit_word_eqI) (auto simp add: bit_simps)

lemma bucket_pc: "(ucast (127 AND (pc :: ADDRINT)) :: cint) = ucast (take_bit 7 pc)"
proof -
  have "(127 :: ADDRINT) = mask 7" by (simp add: mask_eq_exp_minus_1)
  then show ?thesis by (simp add: take_bit_eq_mask and.commute)
qed

lemma take_bit_ucast_pc: "k \<le> 31 \<Longrightarrow> take_bit k (ucast (take_bit k (pc :: ADDRINT)) :: cint) = ucast (take_bit k pc)"
  by (rule bit_word_eqI) (auto simp add: bit_simps)

lemma unat_ucast_pc: "k \<le> 31 \<Longrightarrow> unat (ucast (take_bit k (pc :: ADDRINT)) :: cint) = take_bit k (unat pc)"
  by (simp add: unsigned_ucast_eq unsigned_take_bit_eq min_def)

lemma nat_and_mask: "(x::nat) AND (2 ^ k - 1) = take_bit k x" "(x::nat) AND (2 ^ k - Suc 0) = take_bit k x"
  by (simp_all add: take_bit_eq_mask mask_eq_exp_minus_1)



lemma nat_sint_in_range: "in_range n i \<Longrightarrow> nat (sint i) = unat i"
  by (simp add: in_range_def sint_eq_uint_nonneg)

lemma in_range_masked:
  assumes "valid_size n"
  shows "in_range n (x AND IndexMask n)"
proof -
  from assms obtain k where k: "k \<le> 12" "n = 2 ^ k" "IndexMask n = mask k" by (rule valid_size_mask)
  have "take_bit k (x AND mask k) = x AND mask k" by (simp add: take_bit_eq_mask and.assoc)
  then show ?thesis using k by (simp add: in_range_iff_take_bit)
qed

lemma in_range_xor:
  assumes "valid_size n" "in_range n a" "in_range n b"
  shows "in_range n (a XOR b)"
proof -
  from assms(1) obtain k where k: "k \<le> 12" "n = 2 ^ k" "IndexMask n = mask k" by (rule valid_size_mask)
  then show ?thesis using assms(2,3) by (simp add: in_range_iff_take_bit take_bit_xor)
qed

lemma in_range_pc:
  assumes "valid_size n"
  shows "in_range n (ucast (scast (IndexMask n) AND (pc::ADDRINT)))"
    and "unat (ucast (scast (IndexMask n) AND pc) :: cint) = unat pc AND (n - 1)"
proof -
  from assms obtain k where k: "k \<le> 12" "n = 2 ^ k" "IndexMask n = mask k" by (rule valid_size_mask)
  then show "in_range n (ucast (scast (IndexMask n) AND (pc::ADDRINT)))"
    by (simp add: in_range_iff_take_bit masked_pc take_bit_ucast_pc)
  show "unat (ucast (scast (IndexMask n) AND pc) :: cint) = unat pc AND (n - 1)"
    using k by (simp add: masked_pc unat_ucast_pc nat_and_mask)
qed

lemma in_range_bucket:
  shows "in_range 128 (ucast (127 AND (pc::ADDRINT)))"
    and "unat (ucast (127 AND pc) :: cint) = unat pc AND 127"
proof -
  have "in_range (2 ^ 7) (ucast (127 AND (pc::ADDRINT)))"
    by (simp only: bucket_pc in_range_iff_take_bit take_bit_ucast_pc)
  then show "in_range 128 (ucast (127 AND (pc::ADDRINT)))" by simp
  have "unat pc AND (2 ^ 7 - 1) = take_bit 7 (unat pc)" by (rule nat_and_mask(1))
  then show "unat (ucast (127 AND pc) :: cint) = unat pc AND 127"
    by (simp add: bucket_pc unat_ucast_pc)
qed

lemma unat_xor_spec: "unat ((a::cint) XOR b) = unat a XOR unat b"
  by (rule unsigned_xor_eq)

lemma unat_shift_mask:
  assumes "k \<le> 31"
  shows "unat (push_bit m (i::cint) AND mask k) = take_bit k (push_bit m (unat i))"
  using assms by (intro bit_eqI) (auto simp add: bit_simps)

lemma unat_shift_or_mask:
  assumes "k \<le> 31" "0 < m"
  shows "unat ((push_bit m (i::cint) OR 1) AND mask k) = take_bit k (push_bit m (unat i) OR 1)"
  using assms by (intro bit_eqI) (auto simp add: bit_simps)

lemma shift_plus_1: "0 < m \<Longrightarrow> push_bit m (i::cint) + 1 = push_bit m i OR 1"
  by (rule disjunctive_add) (auto simp add: bit_simps)

lemma history_update:
  assumes "valid_size n"
  shows "in_range n ((push_bit 1 i + 1) AND IndexMask n)"
    and "in_range n (push_bit 1 i AND IndexMask n)"
    and "unat ((push_bit 1 i + 1) AND IndexMask n) = (push_bit 1 (unat i) OR 1) AND (n - 1)"
    and "unat (push_bit 1 i AND IndexMask n) = (push_bit 1 (unat i)) AND (n - 1)"
proof -
  from assms obtain k where k: "k \<le> 12" "n = 2 ^ k" "IndexMask n = mask k" by (rule valid_size_mask)
  show "in_range n ((push_bit 1 i + 1) AND IndexMask n)" by (rule in_range_masked [OF assms])
  show "in_range n (push_bit 1 i AND IndexMask n)" by (rule in_range_masked [OF assms])
  have k31: "k \<le> 31" using k(1) by simp
  have "unat (push_bit 1 i AND mask k) = take_bit k (push_bit 1 (unat i))"
    by (rule unat_shift_mask [OF k31])
  then show "unat (push_bit 1 i AND IndexMask n) = (push_bit 1 (unat i)) AND (n - 1)"
    using k by (simp only: nat_and_mask)
  have "push_bit 1 i + 1 = push_bit 1 i OR 1" by (rule shift_plus_1) simp
  moreover have "unat ((push_bit 1 i OR 1) AND mask k) = take_bit k (push_bit 1 (unat i) OR 1)"
    by (rule unat_shift_or_mask [OF k31]) simp
  ultimately show "unat ((push_bit 1 i + 1) AND IndexMask n) = (push_bit 1 (unat i) OR 1) AND (n - 1)"
    using k by (simp only: nat_and_mask)
qed

section \<open>Tables\<close>

lemma at_vec_in_range:
  assumes "in_range (length v) i"
  shows "at_vec v i = Some (v ! unat i)"
proof -
  have e: "nat (sint i) = unat i" using assms by (rule nat_sint_in_range)
  from assms have "0 \<le> sint i" and "nat (sint i) < length v" by (simp_all add: in_range_def)
  then show ?thesis unfolding at_vec_def e by simp
qed

lemma inc_below_3_bump: "in_range (length v) i \<Longrightarrow> inc_below_3 v i = Some (bump v (unat i) True)"
  by (simp add: inc_below_3_def at_vec_in_range bump_def nat_sint_in_range word_sless_alt)

lemma dec_above_0_bump: "in_range (length v) i \<Longrightarrow> dec_above_0 v i = Some (bump v (unat i) False)"
  by (simp add: dec_above_0_def at_vec_in_range bump_def nat_sint_in_range word_sless_alt)

lemma length_bump [simp]: "length (bump v i b) = length v"
  by (simp add: bump_def)

lemma counter_cases:
  assumes "0 \<le> sint (c::cint)" "sint c \<le> 3"
  shows "c = 0 \<or> c = 1 \<or> c = 2 \<or> c = 3"
proof -
  have u: "sint c = uint c" using assms(1) by (rule sint_eq_uint_nonneg)
  have "uint c \<le> 3" and "0 \<le> uint c" using assms u by simp_all
  then have "uint c = 0 \<or> uint c = 1 \<or> uint c = 2 \<or> uint c = 3" by arith
  then have "word_of_int (uint c) = (0::cint) \<or> word_of_int (uint c) = (1::cint) \<or> word_of_int (uint c) = (2::cint) \<or> word_of_int (uint c) = (3::cint)"
    by (elim disjE) simp_all
  then show ?thesis by simp
qed

lemma counter_step:
  assumes "0 \<le> sint (c::cint)" "sint c \<le> 3"
  shows "sint c < 3 \<Longrightarrow> 0 \<le> sint (c + 1) \<and> sint (c + 1) \<le> 3"
    and "0 < sint c \<Longrightarrow> 0 \<le> sint (c - 1) \<and> sint (c - 1) \<le> 3"
  using counter_cases [OF assms] by auto

lemma counters_ok_bump:
  assumes "counters_ok v" "i < length v"
  shows "counters_ok (bump v i b)"
proof -
  have c: "0 \<le> sint (v ! i) \<and> sint (v ! i) \<le> 3"
    using assms by (simp add: counters_ok_def list_all_length)
  show ?thesis
    using assms c counter_step [of "v ! i"]
    by (auto simp add: counters_ok_def list_all_length bump_def nth_list_update)
qed

lemma push_back_loop_replicate:
  "push_back_loop cap i n v =
     (if n \<le> i \<or> length v + (n - i) \<le> unat cap then Some (v @ replicate (n - i) 3) else None)"
proof (induction cap i n v rule: push_back_loop.induct)
  case (1 cap i n v)
  show ?case
  proof (cases "i < n")
    case False
    then show ?thesis by (subst push_back_loop.simps) simp
  next
    case True
    then have e: "n - i = Suc (n - (i + 1))" by simp
    show ?thesis
    proof (cases "length v < unat cap")
      case False
      with True show ?thesis by (subst push_back_loop.simps) (simp add: push_back_def)
    next
      case room: True
      then have p: "push_back cap v 3 = Some (v @ [3])" by (simp add: push_back_def)
      have "push_back_loop cap i n v = push_back_loop cap (i + 1) n (v @ [3])"
        using True p by (subst push_back_loop.simps) simp
      also have "\<dots> = (if n \<le> i + 1 \<or> length (v @ [3]) + (n - (i + 1)) \<le> unat cap
                         then Some ((v @ [3]) @ replicate (n - (i + 1)) 3) else None)"
        by (rule "1.IH" [OF True p])
      also have "\<dots> = (if n \<le> i \<or> length v + (n - i) \<le> unat cap
                         then Some (v @ replicate (n - i) 3) else None)"
        using True room by (auto simp add: e replicate_app_Cons_same)
      finally show ?thesis .
    qed
  qed
qed

lemma push_back_loop_fill:
  "push_back_loop cap 0 n [] = (if n \<le> unat cap then Some (replicate n 3) else None)"
  by (simp add: push_back_loop_replicate)

lemma counters_ok_replicate: "counters_ok (replicate n 3)"
  by (simp add: counters_ok_def list_all_length)

section \<open>Steps of the local predictor\<close>

lemma L_bucket:
  shows "nat (sint (ucast (127 AND (pc::ADDRINT)) :: cint)) = spec_bucket pc"
    and "spec_bucket pc < 128"
proof -
  have r: "in_range 128 (ucast (127 AND pc))" by (rule in_range_bucket(1))
  show e: "nat (sint (ucast (127 AND pc) :: cint)) = spec_bucket pc"
    using nat_sint_in_range [OF r] by (simp add: in_range_bucket(2) spec_bucket_def)
  from r show "spec_bucket pc < 128" unfolding e [symmetric] by (simp add: in_range_def)
qed

lemma L_index:
  assumes "valid_size n" "L_inv n s"
  shows "in_range n (L_LHR s ! spec_bucket pc)"
    and "unat (L_LHR s ! spec_bucket pc) = spec_local_idx n (L_LHR s) pc"
    and "spec_local_idx n (L_LHR s) pc < n"
proof -
  have "spec_bucket pc < length (L_LHR s)" using assms(2) L_bucket(2) [of pc] by (simp add: L_inv_def)
  then show r: "in_range n (L_LHR s ! spec_bucket pc)"
    using assms(2) by (simp add: L_inv_def list_all_length)
  from assms(1) obtain k where k: "k \<le> 12" "n = 2 ^ k" "IndexMask n = mask k" by (rule valid_size_mask)
  have "take_bit k (L_LHR s ! spec_bucket pc) = L_LHR s ! spec_bucket pc"
    using r k by (simp add: in_range_iff_take_bit)
  then have "take_bit k (unat (L_LHR s ! spec_bucket pc)) = unat (L_LHR s ! spec_bucket pc)"
    by (metis unsigned_take_bit_eq)
  then show e: "unat (L_LHR s ! spec_bucket pc) = spec_local_idx n (L_LHR s) pc"
    using k by (simp add: spec_local_idx_def nat_and_mask)
  from r show "spec_local_idx n (L_LHR s) pc < n"
    unfolding e [symmetric] nat_sint_in_range [OF r, symmetric] by (simp add: in_range_def)
qed

lemma L_getPrediction_spec:
  assumes "valid_size n" "L_inv n s"
  shows "L_getPrediction s pc = Some (2 \<le> sint (L_PHT s ! spec_local_idx n (L_LHR s) pc), s)"
proof -
  have r: "in_range (length (L_PHT s)) (L_LHR s ! spec_bucket pc)"
    using L_index(1) [OF assms] assms(2) by (simp add: L_inv_def)
  show ?thesis
    by (simp add: L_getPrediction_def L_bucket(1) at_vec_in_range [OF r] L_index(2) [OF assms]
        word_sle_eq)
qed

lemma shift_in_spec:
  assumes "valid_size n"
  shows "in_range n (shift_in (IndexMask n) i b)"
    and "unat (shift_in (IndexMask n) i b) = spec_shift_in n (unat i) b"
  using history_update [OF assms, of i] by (simp_all add: shift_in_def spec_shift_in_def)

lemma L_train_spec:
  assumes "valid_size n" "L_inv n s"
  shows "L_train s pc b =
           Some (s\<lparr>L_PHT := bump (L_PHT s) (spec_local_idx n (L_LHR s) pc) b,
                   L_LHR := (L_LHR s)[spec_bucket pc :=
                               shift_in (IndexMask n) (L_LHR s ! spec_bucket pc) b]\<rparr>)"
proof -
  have r: "in_range (length (L_PHT s)) (L_LHR s ! spec_bucket pc)"
    using L_index(1) [OF assms] assms(2) by (simp add: L_inv_def)
  have m: "L_PHTsize s = IndexMask n" using assms(2) by (simp add: L_inv_def)
  note e = L_index(2) [OF assms, of pc]
  show ?thesis
    by (cases b)
      (simp_all add: L_train_def L_bucket(1) inc_below_3_bump [OF r] dec_above_0_bump [OF r]
        m e shift_in_def)
qed

lemma L_train_inv:
  assumes "valid_size n" "L_inv n s" "L_train s pc b = Some s'"
  shows "L_inv n s'"
proof -
  have s': "s' = s\<lparr>L_PHT := bump (L_PHT s) (spec_local_idx n (L_LHR s) pc) b,
                 L_LHR := (L_LHR s)[spec_bucket pc :=
                             shift_in (IndexMask n) (L_LHR s ! spec_bucket pc) b]\<rparr>"
    using L_train_spec [OF assms(1,2), of pc b] assms(3) by simp
  show ?thesis using assms(2) shift_in_spec(1) [OF assms(1)] L_bucket(2) [of pc] unfolding s'
    by (auto simp add: L_inv_def list_all_length nth_list_update)
qed

lemma L_train_counters:
  assumes "valid_size n" "L_inv n s" "L_train s pc b = Some s'" "counters_ok (L_PHT s)"
  shows "counters_ok (L_PHT s')"
proof -
  from L_train_spec [OF assms(1,2), of pc b] assms(3)
  have s': "L_PHT s' = bump (L_PHT s) (spec_local_idx n (L_LHR s) pc) b" by auto
  have "spec_local_idx n (L_LHR s) pc < length (L_PHT s)"
    using L_index(3) [OF assms(1,2)] assms(2) by (simp add: L_inv_def)
  then show ?thesis unfolding s' using assms(4) by (intro counters_ok_bump)
qed

section \<open>Steps of the gshare predictor\<close>

lemma G_index:
  assumes "valid_size n" "G_inv n s"
  shows "in_range n (ucast (scast (G_PHTsize s) AND pc) XOR G_GHR s)"
    and "unat (ucast (scast (G_PHTsize s) AND pc) XOR G_GHR s) = spec_gshare_idx n (G_GHR s) pc"
    and "spec_gshare_idx n (G_GHR s) pc < n"
proof -
  have m: "G_PHTsize s = IndexMask n" and g: "in_range n (G_GHR s)"
    using assms(2) by (simp_all add: G_inv_def)
  show r: "in_range n (ucast (scast (G_PHTsize s) AND pc) XOR G_GHR s)"
    unfolding m using assms(1) in_range_pc(1) [OF assms(1)] g by (rule in_range_xor)
  show e: "unat (ucast (scast (G_PHTsize s) AND pc) XOR G_GHR s) = spec_gshare_idx n (G_GHR s) pc"
    unfolding m by (simp add: unat_xor_spec in_range_pc(2) [OF assms(1)] spec_gshare_idx_def)
  from r show "spec_gshare_idx n (G_GHR s) pc < n"
    unfolding e [symmetric] nat_sint_in_range [OF r, symmetric] by (simp add: in_range_def)
qed

lemma G_getPrediction_spec:
  assumes "valid_size n" "G_inv n s"
  shows "G_getPrediction s pc = Some (2 \<le> sint (G_PHT s ! spec_gshare_idx n (G_GHR s) pc), s)"
proof -
  have r: "in_range (length (G_PHT s)) (ucast (scast (G_PHTsize s) AND pc) XOR G_GHR s)"
    using G_index(1) [OF assms] assms(2) by (simp add: G_inv_def)
  show ?thesis
    by (simp add: G_getPrediction_def at_vec_in_range [OF r] G_index(2) [OF assms] word_sle_eq)
qed

lemma G_train_spec:
  assumes "valid_size n" "G_inv n s"
  shows "G_train s pc b =
           Some (s\<lparr>G_PHT := bump (G_PHT s) (spec_gshare_idx n (G_GHR s) pc) b,
                   G_GHR := shift_in (IndexMask n)
                              (ucast (scast (IndexMask n) AND pc) XOR G_GHR s) b\<rparr>)"
proof -
  have r: "in_range (length (G_PHT s)) (ucast (scast (G_PHTsize s) AND pc) XOR G_GHR s)"
    using G_index(1) [OF assms] assms(2) by (simp add: G_inv_def)
  have m: "G_PHTsize s = IndexMask n" using assms(2) by (simp add: G_inv_def)
  note e = G_index(2) [OF assms, of pc]
  have "G_train s pc b =
           Some (s\<lparr>G_PHT := bump (G_PHT s) (spec_gshare_idx n (G_GHR s) pc) b,
                   G_GHR := shift_in (G_PHTsize s)
                              (ucast (scast (G_PHTsize s) AND pc) XOR G_GHR s) b\<rparr>)"
    by (cases b)
      (simp_all only: G_train_def Let_def inc_below_3_bump [OF r] dec_above_0_bump [OF r] e
        shift_in_def if_True if_False Option.bind.simps)
  then show ?thesis unfolding m .
qed

lemma G_train_inv:
  assumes "valid_size n" "G_inv n s" "G_train s pc b = Some s'"
  shows "G_inv n s'"
proof -
  have s': "s' = s\<lparr>G_PHT := bump (G_PHT s) (spec_gshare_idx n (G_GHR s) pc) b,
                   G_GHR := shift_in (IndexMask n)
                              (ucast (scast (IndexMask n) AND pc) XOR G_GHR s) b\<rparr>"
    using G_train_spec [OF assms(1,2), of pc b] assms(3) by simp
  show ?thesis using assms(2) shift_in_spec(1) [OF assms(1)] unfolding s' by (simp add: G_inv_def)
qed

lemma G_train_counters:
  assumes "valid_size n" "G_inv n s" "G_train s pc b = Some s'" "counters_ok (G_PHT s)"
  shows "counters_ok (G_PHT s')"
proof -
  from G_train_spec [OF assms(1,2), of pc b] assms(3)
  have s': "G_PHT s' = bump (G_PHT s) (spec_gshare_idx n (G_GHR s) pc) b" by auto
  have "spec_gshare_idx n (G_GHR s) pc < length (G_PHT s)"
    using G_index(3) [OF assms(1,2)] assms(2) by (simp add: G_inv_def)
  then show ?thesis unfolding s' using assms(4) by (intro counters_ok_bump)
qed

section \<open>Steps of the tournament predictor\<close>

lemma T_sel:
  assumes "valid_size n" "T_inv n s"
  shows "in_range (length (T_PHT s)) (ucast (scast (T_PHTsize s) AND pc))"
    and "unat (ucast (scast (T_PHTsize s) AND pc) :: cint) = spec_sel n pc"
    and "spec_sel n pc < n"
proof -
  have m: "T_PHTsize s = IndexMask n" and len: "length (T_PHT s) = n"
    using assms(2) by (simp_all add: T_inv_def)
  have r: "in_range n (ucast (scast (IndexMask n) AND pc))" by (rule in_range_pc(1) [OF assms(1)])
  show "in_range (length (T_PHT s)) (ucast (scast (T_PHTsize s) AND pc))"
    unfolding m len by (rule r)
  show e: "unat (ucast (scast (T_PHTsize s) AND pc) :: cint) = spec_sel n pc"
    unfolding m by (simp add: in_range_pc(2) [OF assms(1)] spec_sel_def)
  from r show "spec_sel n pc < n"
    unfolding e [unfolded m, symmetric] nat_sint_in_range [OF r, symmetric] by (simp add: in_range_def)
qed

lemma T_sub_predictions:
  assumes "valid_size n" "T_inv n s"
  shows "G_getPrediction (gbranch s) pc = Some (spec_gshare_predict n (gbranch s) pc, gbranch s)"
    and "L_getPrediction (lbranch s) pc = Some (spec_local_predict n (lbranch s) pc, lbranch s)"
proof -
  have g: "G_inv n (gbranch s)" and l: "L_inv n (lbranch s)" using assms(2) by (simp_all add: T_inv_def)
  show "G_getPrediction (gbranch s) pc = Some (spec_gshare_predict n (gbranch s) pc, gbranch s)"
    by (simp add: G_getPrediction_spec [OF assms(1) g] spec_gshare_predict_def spec_read_def)
  show "L_getPrediction (lbranch s) pc = Some (spec_local_predict n (lbranch s) pc, lbranch s)"
    by (simp add: L_getPrediction_spec [OF assms(1) l] spec_local_predict_def spec_read_def)
qed

lemma T_getPrediction_spec:
  assumes "valid_size n" "T_inv n s"
  shows "T_getPrediction s pc =
           Some (if spec_read (T_PHT s) (spec_sel n pc)
                 then (spec_gshare_predict n (gbranch s) pc, s\<lparr>used := 0\<rparr>)
                 else (spec_local_predict n (lbranch s) pc, s\<lparr>used := 1\<rparr>))"
  by (simp add: T_getPrediction_def at_vec_in_range [OF T_sel(1) [OF assms]] T_sel(2) [OF assms]
      T_sub_predictions [OF assms] spec_read_def word_sle_eq)

lemma select_taken_bump:
  assumes "in_range (length v) i"
  shows "select_taken u g l v i =
           Some (if u = 0 then (if \<not> g \<and> l then bump v (unat i) False
                                else if g then bump v (unat i) True else v)
                 else if u = 1 then (if g \<and> \<not> l then bump v (unat i) True
                                else if l then bump v (unat i) False else v)
                 else v)"
  by (simp add: select_taken_def inc_below_3_bump [OF assms] dec_above_0_bump [OF assms])

lemma select_not_taken_bump:
  assumes "in_range (length v) i"
  shows "select_not_taken u g l v i =
           Some (if u = 0 then (if g \<and> \<not> l then bump v (unat i) False
                                else if \<not> g then bump v (unat i) True else v)
                 else if u = 1 then (if \<not> g \<and> l then bump v (unat i) True
                                else if \<not> l then bump v (unat i) False else v)
                 else v)"
  by (simp add: select_not_taken_def inc_below_3_bump [OF assms] dec_above_0_bump [OF assms])

lemma T_train_spec:
  assumes "valid_size n" "T_inv n s"
  obtains g' l' v' where
    "G_train (gbranch s) pc b = Some g'" and "L_train (lbranch s) pc b = Some l'" and
    "(if b then select_taken else select_not_taken) (used s)
        (spec_gshare_predict n (gbranch s) pc) (spec_local_predict n (lbranch s) pc)
        (T_PHT s) (ucast (scast (T_PHTsize s) AND pc)) = Some v'" and
    "T_train s pc b = Some (s\<lparr>gbranch := g', lbranch := l', T_PHT := v'\<rparr>)"
proof -
  have g: "G_inv n (gbranch s)" and l: "L_inv n (lbranch s)" using assms(2) by (simp_all add: T_inv_def)
  note r = T_sel(1) [OF assms, of pc]
  show thesis
  proof (cases b)
    case True
    show thesis
      by (rule that [OF G_train_spec [OF assms(1) g] L_train_spec [OF assms(1) l]])
        (simp_all add: True select_taken_bump [OF r] T_train_def T_sub_predictions [OF assms]
          G_train_spec [OF assms(1) g] L_train_spec [OF assms(1) l])
  next
    case False
    show thesis
      by (rule that [OF G_train_spec [OF assms(1) g] L_train_spec [OF assms(1) l]])
        (simp_all add: False select_not_taken_bump [OF r] T_train_def T_sub_predictions [OF assms]
          G_train_spec [OF assms(1) g] L_train_spec [OF assms(1) l])
  qed
qed

lemma select_length:
  assumes "(if b then select_taken else select_not_taken) u g l v i = Some v'"
  shows "length v' = length v"
proof -
  have a: "\<And>w. inc_below_3 v i = Some w \<Longrightarrow> length w = length v"
    by (auto simp add: inc_below_3_def split: bind_splits if_splits)
  have d: "\<And>w. dec_above_0 v i = Some w \<Longrightarrow> length w = length v"
    by (auto simp add: dec_above_0_def split: bind_splits if_splits)
  show ?thesis using assms a d
    by (auto simp add: select_taken_def select_not_taken_def split: if_splits)
qed

lemma select_counters:
  assumes "in_range (length v) i" "counters_ok v"
    and "(if b then select_taken else select_not_taken) u g l v i = Some v'"
  shows "counters_ok v'"
proof -
  have "unat i < length v" using assms(1) nat_sint_in_range [OF assms(1)] by (simp add: in_range_def)
  then have "\<And>c. counters_ok (bump v (unat i) c)" using assms(2) by (intro counters_ok_bump)
  then show ?thesis using assms(2,3)
    by (cases b) (auto simp add: select_taken_bump [OF assms(1)] select_not_taken_bump [OF assms(1)]
        split: if_splits)
qed

lemma T_train_inv:
  assumes "valid_size n" "T_inv n s" "T_train s pc b = Some s'"
  shows "T_inv n s'"
proof -
  obtain g' l' v' where g': "G_train (gbranch s) pc b = Some g'"
    and l': "L_train (lbranch s) pc b = Some l'"
    and v': "(if b then select_taken else select_not_taken) (used s)
        (spec_gshare_predict n (gbranch s) pc) (spec_local_predict n (lbranch s) pc)
        (T_PHT s) (ucast (scast (T_PHTsize s) AND pc)) = Some v'"
    and t: "T_train s pc b = Some (s\<lparr>gbranch := g', lbranch := l', T_PHT := v'\<rparr>)"
    by (rule T_train_spec [OF assms(1,2)])
  have g: "G_inv n (gbranch s)" and l: "L_inv n (lbranch s)" using assms(2) by (simp_all add: T_inv_def)
  have "G_inv n g'" by (rule G_train_inv [OF assms(1) g g'])
  moreover have "L_inv n l'" by (rule L_train_inv [OF assms(1) l l'])
  moreover have "length v' = length (T_PHT s)" by (rule select_length [OF v'])
  ultimately show ?thesis using assms(2,3) t by (auto simp add: T_inv_def)
qed

lemma T_train_counters:
  assumes "valid_size n" "T_inv n s" "T_train s pc b = Some s'" "T_counters_ok s"
  shows "T_counters_ok s'"
proof -
  obtain g' l' v' where g': "G_train (gbranch s) pc b = Some g'"
    and l': "L_train (lbranch s) pc b = Some l'"
    and v': "(if b then select_taken else select_not_taken) (used s)
        (spec_gshare_predict n (gbranch s) pc) (spec_local_predict n (lbranch s) pc)
        (T_PHT s) (ucast (scast (T_PHTsize s) AND pc)) = Some v'"
    and t: "T_train s pc b = Some (s\<lparr>gbranch := g', lbranch := l', T_PHT := v'\<rparr>)"
    by (rule T_train_spec [OF assms(1,2)])
  have g: "G_inv n (gbranch s)" and l: "L_inv n (lbranch s)" using assms(2) by (simp_all add: T_inv_def)
  have "counters_ok (G_PHT g')" using assms(4) by (intro G_train_counters [OF assms(1) g g']) (simp add: T_counters_ok_def)
  moreover have "counters_ok (L_PHT l')" using assms(4) by (intro L_train_counters [OF assms(1) l l']) (simp add: T_counters_ok_def)
  moreover have "counters_ok v'" using assms(4) by (intro select_counters [OF T_sel(1) [OF assms(1,2)] _ v']) (simp add: T_counters_ok_def)
  ultimately show ?thesis using assms(3) t by (auto simp add: T_counters_ok_def)
qed

section \<open>Constructors\<close>

text \<open>A constructor fails exactly when its table cannot be allocated; the table size is
  never checked.\<close>

lemma LocalBranchPredictor_result:
  "LocalBranchPredictor n m =
     (if n \<le> unat (capacity m)
      then Some \<lparr>L_numEntries = n,
                 L_PHTsize = (if n = 128 then 127 else if n = 1024 then 1023
                              else if n = 4096 then 4095 else uninit m),
                 L_LHR = replicate 128 0, L_PHT = replicate n 3\<rparr>
      else None)"
  by (simp add: LocalBranchPredictor_def Let_def push_back_loop_fill)

lemma GshareBranchPredictor_result:
  "GshareBranchPredictor n m =
     (if n \<le> unat (capacity m)
      then Some \<lparr>G_numEntries = n,
                 G_PHTsize = (if n = 128 then 127 else if n = 1024 then 1023
                              else if n = 4096 then 4095 else uninit m),
                 G_GHR = 0, G_PHT = replicate n 3\<rparr>
      else None)"
  by (simp add: GshareBranchPredictor_def Let_def push_back_loop_fill)

lemma TournamentBranchPredictor_result:
  assumes "TournamentBranchPredictor n m new_l new_g = Some s"
  shows "\<exists>ml mg l g. new_l = Some ml \<and> new_g = Some mg \<and> n \<le> unat (capacity m) \<and>
           LocalBranchPredictor n ml = Some l \<and> GshareBranchPredictor n mg = Some g \<and>
           s = \<lparr>T_numEntries = n, gbranch = g, lbranch = l,
                T_PHTsize = (if n = 128 then 127 else if n = 1024 then 1023
                             else if n = 4096 then 4095 else uninit m),
                used = 2, T_PHT = replicate n 3\<rparr>"
  using assms
  by (auto simp add: TournamentBranchPredictor_def Let_def push_back_loop_fill
      split: bind_splits if_splits)

lemma TournamentBranchPredictor_Some:
  assumes "n \<le> unat (capacity m)"
    and "LocalBranchPredictor n ml = Some l" and "GshareBranchPredictor n mg = Some g"
  shows "TournamentBranchPredictor n m (Some ml) (Some mg) =
           Some \<lparr>T_numEntries = n, gbranch = g, lbranch = l,
                 T_PHTsize = (if n = 128 then 127 else if n = 1024 then 1023
                              else if n = 4096 then 4095 else uninit m),
                 used = 2, T_PHT = replicate n 3\<rparr>"
  using assms by (simp add: TournamentBranchPredictor_def Let_def push_back_loop_fill)

lemma valid_size_IndexMask:
  assumes "valid_size n"
  shows "(if n = 128 then 127 else if n = 1024 then 1023 else if n = 4096 then 4095 else u) = IndexMask n"
  using assms by (auto simp add: valid_size_def IndexMask_def)

lemma in_range_0: "valid_size n \<Longrightarrow> in_range n 0"
  by (auto simp add: valid_size_def in_range_def)

lemma LocalBranchPredictor_fresh:
  assumes "valid_size n" "LocalBranchPredictor n m = Some s"
  shows "s = fresh_local n"
  using assms(2)
  by (simp add: LocalBranchPredictor_result valid_size_IndexMask [OF assms(1)] fresh_local_def
      split: if_splits)

lemma GshareBranchPredictor_fresh:
  assumes "valid_size n" "GshareBranchPredictor n m = Some s"
  shows "s = fresh_gshare n"
  using assms(2)
  by (simp add: GshareBranchPredictor_result valid_size_IndexMask [OF assms(1)] fresh_gshare_def
      split: if_splits)

lemma TournamentBranchPredictor_fresh:
  assumes "valid_size n" "TournamentBranchPredictor n m new_l new_g = Some s"
  shows "s = fresh_tournament n"
proof -
  from TournamentBranchPredictor_result [OF assms(2)] obtain ml mg l g where
    l: "LocalBranchPredictor n ml = Some l" and g: "GshareBranchPredictor n mg = Some g"
    and s: "s = \<lparr>T_numEntries = n, gbranch = g, lbranch = l,
                T_PHTsize = (if n = 128 then 127 else if n = 1024 then 1023
                             else if n = 4096 then 4095 else uninit m),
                used = 2, T_PHT = replicate n 3\<rparr>"
    by blast
  show ?thesis
    unfolding s LocalBranchPredictor_fresh [OF assms(1) l] GshareBranchPredictor_fresh [OF assms(1) g]
    by (simp add: valid_size_IndexMask [OF assms(1)] fresh_tournament_def)
qed

lemma fresh_local_inv:
  assumes "valid_size n"
  shows "L_inv n (fresh_local n)" and "counters_ok (L_PHT (fresh_local n))"
  using in_range_0 [OF assms]
  by (simp_all add: L_inv_def fresh_local_def list_all_length counters_ok_replicate)

lemma fresh_gshare_inv:
  assumes "valid_size n"
  shows "G_inv n (fresh_gshare n)" and "counters_ok (G_PHT (fresh_gshare n))"
  using in_range_0 [OF assms]
  by (simp_all add: G_inv_def fresh_gshare_def counters_ok_replicate)

lemma fresh_tournament_inv:
  assumes "valid_size n"
  shows "T_inv n (fresh_tournament n)" and "T_counters_ok (fresh_tournament n)"
  using fresh_local_inv [OF assms] fresh_gshare_inv [OF assms]
  by (simp_all add: T_inv_def T_counters_ok_def fresh_tournament_def counters_ok_replicate)

section \<open>Call sequences\<close>

lemma L_step_inv:
  assumes "valid_size n" "L_inv n s"
  shows "\<exists>s'. L_step s c = Some s' \<and> L_inv n s' \<and> (counters_ok (L_PHT s) \<longrightarrow> counters_ok (L_PHT s'))"
proof (cases c)
  case (Predict pc)
  then show ?thesis using assms(2) by (simp add: L_getPrediction_spec [OF assms])
next
  case (Train pc b)
  obtain s' where s': "L_train s pc b = Some s'" using L_train_spec [OF assms] by blast
  show ?thesis using Train s' L_train_inv [OF assms s'] L_train_counters [OF assms s'] by simp
qed

lemma L_run_inv:
  assumes "valid_size n" "L_inv n s"
  shows "\<exists>s'. L_run s cs = Some s' \<and> L_inv n s' \<and> (counters_ok (L_PHT s) \<longrightarrow> counters_ok (L_PHT s'))"
  using assms(2)
proof (induction cs arbitrary: s)
  case Nil
  then show ?case by simp
next
  case (Cons c cs)
  from L_step_inv [OF assms(1) Cons.prems, of c] obtain s1 where
    s1: "L_step s c = Some s1" "L_inv n s1" "counters_ok (L_PHT s) \<longrightarrow> counters_ok (L_PHT s1)" by blast
  from Cons.IH [OF s1(2)] s1 show ?case by auto
qed

lemma G_step_inv:
  assumes "valid_size n" "G_inv n s"
  shows "\<exists>s'. G_step s c = Some s' \<and> G_inv n s' \<and> (counters_ok (G_PHT s) \<longrightarrow> counters_ok (G_PHT s'))"
proof (cases c)
  case (Predict pc)
  then show ?thesis using assms(2) by (simp add: G_getPrediction_spec [OF assms])
next
  case (Train pc b)
  obtain s' where s': "G_train s pc b = Some s'" using G_train_spec [OF assms] by blast
  show ?thesis using Train s' G_train_inv [OF assms s'] G_train_counters [OF assms s'] by simp
qed

lemma G_run_inv:
  assumes "valid_size n" "G_inv n s"
  shows "\<exists>s'. G_run s cs = Some s' \<and> G_inv n s' \<and> (counters_ok (G_PHT s) \<longrightarrow> counters_ok (G_PHT s'))"
  using assms(2)
proof (induction cs arbitrary: s)
  case Nil
  then show ?case by simp
next
  case (Cons c cs)
  from G_step_inv [OF assms(1) Cons.prems, of c] obtain s1 where
    s1: "G_step s c = Some s1" "G_inv n s1" "counters_ok (G_PHT s) \<longrightarrow> counters_ok (G_PHT s1)" by blast
  from Cons.IH [OF s1(2)] s1 show ?case by auto
qed

lemma T_step_inv:
  assumes "valid_size n" "T_inv n s"
  shows "\<exists>s'. T_step s c = Some s' \<and> T_inv n s' \<and> (T_counters_ok s \<longrightarrow> T_counters_ok s')"
proof (cases c)
  case (Predict pc)
  then show ?thesis using assms(2)
    by (simp add: T_getPrediction_spec [OF assms] T_inv_def T_counters_ok_def)
next
  case (Train pc b)
  obtain s' where s': "T_train s pc b = Some s'" using T_train_spec [OF assms] by metis
  show ?thesis using Train s' T_train_inv [OF assms s'] T_train_counters [OF assms s'] by simp
qed

lemma T_run_inv:
  assumes "valid_size n" "T_inv n s"
  shows "\<exists>s'. T_run s cs = Some s' \<and> T_inv n s' \<and> (T_counters_ok s \<longrightarrow> T_counters_ok s')"
  using assms(2)
proof (induction cs arbitrary: s)
  case Nil
  then show ?case by simp
next
  case (Cons c cs)
  from T_step_inv [OF assms(1) Cons.prems, of c] obtain s1 where
    s1: "T_step s c = Some s1" "T_inv n s1" "T_counters_ok s \<longrightarrow> T_counters_ok s1" by blast
  from Cons.IH [OF s1(2)] s1 show ?case by auto
qed

section \<open>Reachable states\<close>

text \<open>The states a predictor of a valid table size goes through after its constructor
  has returned.\<close>

lemma L_reachable_inv:
  assumes "valid_size n" "LocalBranchPredictor n m = Some s0"
  shows "\<exists>s. L_run s0 cs = Some s \<and> L_inv n s \<and> counters_ok (L_PHT s)"
  using L_run_inv [OF assms(1) fresh_local_inv(1) [OF assms(1)], of cs]
    fresh_local_inv(2) [OF assms(1)]
  unfolding LocalBranchPredictor_fresh [OF assms] by blast

lemma G_reachable_inv:
  assumes "valid_size n" "GshareBranchPredictor n m = Some s0"
  shows "\<exists>s. G_run s0 cs = Some s \<and> G_inv n s \<and> counters_ok (G_PHT s)"
  using G_run_inv [OF assms(1) fresh_gshare_inv(1) [OF assms(1)], of cs]
    fresh_gshare_inv(2) [OF assms(1)]
  unfolding GshareBranchPredictor_fresh [OF assms] by blast

lemma T_reachable_total:
  assumes "valid_size n" "TournamentBranchPredictor n m new_l new_g = Some s0"
  shows "\<exists>s. T_run s0 cs = Some s \<and> T_inv n s \<and> T_counters_ok s"
  using T_run_inv [OF assms(1) fresh_tournament_inv(1) [OF assms(1)], of cs]
    fresh_tournament_inv(2) [OF assms(1)]
  unfolding TournamentBranchPredictor_fresh [OF assms] by blast

lemma L_reachable_state:
  assumes "valid_size n" "LocalBranchPredictor n m = Some s0" "L_run s0 cs = Some s"
  shows "L_inv n s" and "counters_ok (L_PHT s)"
  using L_reachable_inv [OF assms(1,2), of cs] assms(3) by simp_all

lemma G_reachable_state:
  assumes "valid_size n" "GshareBranchPredictor n m = Some s0" "G_run s0 cs = Some s"
  shows "G_inv n s" and "counters_ok (G_PHT s)"
  using G_reachable_inv [OF assms(1,2), of cs] assms(3) by simp_all

lemma T_reachable_inv:
  assumes "valid_size n" "TournamentBranchPredictor n m new_l new_g = Some s0"
    "T_run s0 cs = Some s"
  shows "T_inv n s" and "T_counters_ok s"
  using T_reachable_total [OF assms(1,2), of cs] assms(3) by simp_all

lemma bump_explicit:
  assumes "0 \<le> sint (v ! i)" "sint (v ! i) \<le> 3"
  shows "bump v i True = (if sint (v ! i) = 3 then v else v[i := v ! i + 1])"
    and "bump v i False = (if sint (v ! i) = 0 then v else v[i := v ! i - 1])"
  using assms by (auto simp add: bump_def)

lemma counters_ok_nth: "counters_ok v \<Longrightarrow> i < length v \<Longrightarrow> 0 \<le> sint (v ! i) \<and> sint (v ! i) \<le> 3"
  by (simp add: counters_ok_def list_all_length)

lemma T_inv_used: "T_inv n (s\<lparr>used := c\<rparr>) = T_inv n s"
  by (simp add: T_inv_def)

lemma T_train_unused:
  assumes "valid_size n" "T_inv n s" "used s = 2"
  shows "\<exists>s'. T_train s pc b = Some s' \<and> T_inv n s' \<and> used s' = 2 \<and> T_PHT s' = T_PHT s \<and>
           G_train (gbranch s) pc b = Some (gbranch s') \<and>
           L_train (lbranch s) pc b = Some (lbranch s')"
proof -
  obtain g' l' v' where g': "G_train (gbranch s) pc b = Some g'"
    and l': "L_train (lbranch s) pc b = Some l'"
    and v': "(if b then select_taken else select_not_taken) (used s)
        (spec_gshare_predict n (gbranch s) pc) (spec_local_predict n (lbranch s) pc)
        (T_PHT s) (ucast (scast (T_PHTsize s) AND pc)) = Some v'"
    and t: "T_train s pc b = Some (s\<lparr>gbranch := g', lbranch := l', T_PHT := v'\<rparr>)"
    by (rule T_train_spec [OF assms(1,2)])
  have "v' = T_PHT s" using v' assms(3)
    by (cases b) (simp_all add: select_taken_def select_not_taken_def)
  then show ?thesis using g' l' t assms(3) T_train_inv [OF assms(1,2) t] by simp
qed

lemma T_run_unused:
  assumes "valid_size n" "T_inv n s" "used s = 2" "list_all is_Train cs"
  shows "\<exists>s'. T_run s cs = Some s' \<and> used s' = 2 \<and> T_PHT s' = T_PHT s \<and>
           G_run (gbranch s) cs = Some (gbranch s') \<and>
           L_run (lbranch s) cs = Some (lbranch s')"
  using assms(2,3,4)
proof (induction cs arbitrary: s)
  case Nil
  then show ?case by simp
next
  case (Cons c cs)
  from Cons.prems(3) obtain pc b where c: "c = Train pc b" and rest: "list_all is_Train cs"
    by (cases c) simp_all
  from T_train_unused [OF assms(1) Cons.prems(1,2), of pc b] obtain s1 where
    s1: "T_train s pc b = Some s1" "T_inv n s1" "used s1 = 2" "T_PHT s1 = T_PHT s"
      "G_train (gbranch s) pc b = Some (gbranch s1)" "L_train (lbranch s) pc b = Some (lbranch s1)"
    by blast
  from Cons.IH [OF s1(2,3) rest] obtain s' where
    "T_run s1 cs = Some s'" "used s' = 2" "T_PHT s' = T_PHT s1"
    "G_run (gbranch s1) cs = Some (gbranch s')" "L_run (lbranch s1) cs = Some (lbranch s')"
    by blast
  then show ?case using c s1 by simp
qed

section \<open>Claims\<close>

subsection \<open>C1: the selector when the sub-predictors agree\<close>

text \<open>
  Claim C1 says that whenever the local and the gshare prediction for a branch agree,
  \<^verbatim>\<open>train\<close> leaves the selector counter of the branch's bucket unchanged. The code does
  not: in \<^verbatim>\<open>if (! gresult && lresult) ... else if (gresult && PHT.at(LSB) < 0b11)\<close> the
  second branch is taken when both predicted taken. After the harness run \<open>agree_trace\<close>
  on a tournament predictor constructed with table size 128, both sub-predictors predict
  taken for address 11, \<^verbatim>\<open>used\<close> is 0 and the selector counter of bucket 11 is 2;
  training address 11 as taken raises the counter to 3.
\<close>

theorem tournament_agreement_changes_selector:
  "TournamentBranchPredictor 128 \<lparr>uninit = 0, capacity = 128\<rparr>
     (Some \<lparr>uninit = 0, capacity = 128\<rparr>) (Some \<lparr>uninit = 0, capacity = 128\<rparr>)
     = Some (fresh_tournament 128) \<and>
   map_option (T_observe 128 11) (T_run (fresh_tournament 128) agree_trace)
     = Some (True, True, 0, 2) \<and>
   map_option (T_observe 128 11) (T_run (fresh_tournament 128) (agree_trace @ [Train 11 True]))
     = Some (True, True, 0, 3)"
  by code_simp

text \<open>
  Claim C1, as amended: in every reachable state, when the two predictions for an address
  agree, \<^verbatim>\<open>train\<close> returns, and the selector table is unchanged if the common prediction
  was wrong (or \<^verbatim>\<open>used\<close> is neither 0 nor 1); if the common prediction was right, the
  counter of the address's bucket moves one saturating step towards the sub-predictor
  recorded in \<^verbatim>\<open>used\<close>: up for gshare (0), down for local (1).
\<close>

theorem tournament_agreement_selector:
  assumes "valid_size n"
    and "TournamentBranchPredictor n m new_l new_g = Some s0"
    and "T_run s0 cs = Some s"
    and "spec_gshare_predict n (gbranch s) pc = spec_local_predict n (lbranch s) pc"
  shows "\<exists>s'. T_train s pc b = Some s' \<and>
           T_PHT s' =
             (if spec_local_predict n (lbranch s) pc = b
              then (if used s = 0 then bump (T_PHT s) (spec_sel n pc) True
                    else if used s = 1 then bump (T_PHT s) (spec_sel n pc) False
                    else T_PHT s)
              else T_PHT s)"
proof -
  have inv: "T_inv n s" by (rule T_reachable_inv(1) [OF assms(1,2,3)])
  obtain g' l' v' where
    v': "(if b then select_taken else select_not_taken) (used s)
        (spec_gshare_predict n (gbranch s) pc) (spec_local_predict n (lbranch s) pc)
        (T_PHT s) (ucast (scast (T_PHTsize s) AND pc)) = Some v'"
    and t: "T_train s pc b = Some (s\<lparr>gbranch := g', lbranch := l', T_PHT := v'\<rparr>)"
    by (rule T_train_spec [OF assms(1) inv])
  note r = T_sel(1) [OF assms(1) inv, of pc]
  note e = T_sel(2) [OF assms(1) inv, of pc]
  have "v' = (if spec_local_predict n (lbranch s) pc = b
              then (if used s = 0 then bump (T_PHT s) (spec_sel n pc) True
                    else if used s = 1 then bump (T_PHT s) (spec_sel n pc) False
                    else T_PHT s)
              else T_PHT s)"
    using v' assms(4)
    by (cases b) (auto simp add: select_taken_bump [OF r] select_not_taken_bump [OF r] e)
  then show ?thesis using t by simp
qed

theorem tournament_agreement_selector_witness:
  "valid_size 128 \<and>
   TournamentBranchPredictor 128 \<lparr>uninit = 0, capacity = 128\<rparr>
     (Some \<lparr>uninit = 0, capacity = 128\<rparr>) (Some \<lparr>uninit = 0, capacity = 128\<rparr>)
     = Some (fresh_tournament 128) \<and>
   T_run (fresh_tournament 128) agree_trace
     = Some (the (T_run (fresh_tournament 128) agree_trace)) \<and>
   spec_gshare_predict 128 (gbranch (the (T_run (fresh_tournament 128) agree_trace))) 11
     = spec_local_predict 128 (lbranch (the (T_run (fresh_tournament 128) agree_trace))) 11 \<and>
   T_PHT (the (T_run (fresh_tournament 128) agree_trace)) ! 11 = 2 \<and>
   (\<exists>s'. T_train (the (T_run (fresh_tournament 128) agree_trace)) 11 True = Some s' \<and>
         T_PHT s' ! 11 = 3)"
proof -
  let ?s = "the (T_run (fresh_tournament 128) agree_trace)"
  have v: "valid_size 128" by (simp add: valid_size_def)
  have c: "TournamentBranchPredictor 128 \<lparr>uninit = 0, capacity = 128\<rparr>
     (Some \<lparr>uninit = 0, capacity = 128\<rparr>) (Some \<lparr>uninit = 0, capacity = 128\<rparr>)
     = Some (fresh_tournament 128)"
    by code_simp
  have r: "T_run (fresh_tournament 128) agree_trace = Some ?s" by code_simp
  have a: "spec_gshare_predict 128 (gbranch ?s) 11 = spec_local_predict 128 (lbranch ?s) 11"
    by code_simp
  have p: "spec_local_predict 128 (lbranch ?s) 11 = True" by code_simp
  have u: "used ?s = 0" by code_simp
  have q: "spec_sel 128 11 = 11" by (simp add: spec_sel_def)
  have before: "T_PHT ?s ! 11 = 2" by code_simp
  have after: "bump (T_PHT ?s) 11 True ! 11 = 3" by code_simp
  from tournament_agreement_selector [OF v c r a, of True]
  have "\<exists>s'. T_train ?s 11 True = Some s' \<and> T_PHT s' = bump (T_PHT ?s) 11 True"
    unfolding p u q by simp
  then have t: "\<exists>s'. T_train ?s 11 True = Some s' \<and> T_PHT s' ! 11 = 3"
    using after by auto
  show ?thesis by (intro conjI v c r a before t)
qed

subsection \<open>C2: table sizes the specification does not support\<close>

text \<open>
  Claim C2 says that constructing a predictor with table size 100, or any size other than
  128, 1024 and 4096, raises a configuration error and leaves no usable predictor. The
  constructors check nothing: given room for 100 counters, each of the three constructors
  returns with table size 100, and the object has 100 counters, all 3. The local predictor
  so built answers \<^verbatim>\<open>getPrediction\<close> and \<^verbatim>\<open>train\<close>, which read no mask before the
  table.
\<close>

theorem unsupported_size_is_constructed:
  "map_option L_PHT (LocalBranchPredictor 100 \<lparr>uninit = 4096, capacity = 100\<rparr>)
     = Some (replicate 100 3) \<and>
   map_option G_PHT (GshareBranchPredictor 100 \<lparr>uninit = 4096, capacity = 100\<rparr>)
     = Some (replicate 100 3) \<and>
   map_option T_PHT
     (TournamentBranchPredictor 100 \<lparr>uninit = 4096, capacity = 100\<rparr>
        (Some \<lparr>uninit = 4096, capacity = 100\<rparr>) (Some \<lparr>uninit = 4096, capacity = 100\<rparr>))
     = Some (replicate 100 3) \<and>
   LocalBranchPredictor 100 \<lparr>uninit = 4096, capacity = 100\<rparr>
     = Some \<lparr>L_numEntries = 100, L_PHTsize = 4096, L_LHR = replicate 128 0,
             L_PHT = replicate 100 3\<rparr> \<and>
   map_option fst
     (L_getPrediction \<lparr>L_numEntries = 100, L_PHTsize = 4096, L_LHR = replicate 128 0,
                        L_PHT = replicate 100 3\<rparr> 4096)
     = Some True \<and>
   map_option L_PHT
     (L_train \<lparr>L_numEntries = 100, L_PHTsize = 4096, L_LHR = replicate 128 0,
                L_PHT = replicate 100 3\<rparr> 4096 False)
     = Some ((replicate 100 3)[0 := 2])"
  by code_simp

text \<open>
  Claim C2, as amended: for a table size outside 128, 1024 and 4096 (100 among them) no
  constructor raises a configuration error. Each fails only when its table, or a
  sub-predictor's, cannot be allocated; otherwise it returns a predictor that stores the
  size and has that many counters, all 3, with zero history and \<^verbatim>\<open>used\<close> at 2.
\<close>

theorem unsupported_size_constructors:
  assumes "\<not> valid_size n"
  shows "map_option L_numEntries (LocalBranchPredictor n m)
           = (if n \<le> unat (capacity m) then Some n else None) \<and>
         map_option L_PHT (LocalBranchPredictor n m)
           = (if n \<le> unat (capacity m) then Some (replicate n 3) else None) \<and>
         map_option L_LHR (LocalBranchPredictor n m)
           = (if n \<le> unat (capacity m) then Some (replicate 128 0) else None) \<and>
         map_option G_numEntries (GshareBranchPredictor n m)
           = (if n \<le> unat (capacity m) then Some n else None) \<and>
         map_option G_PHT (GshareBranchPredictor n m)
           = (if n \<le> unat (capacity m) then Some (replicate n 3) else None) \<and>
         map_option G_GHR (GshareBranchPredictor n m)
           = (if n \<le> unat (capacity m) then Some 0 else None) \<and>
         map_option T_numEntries (TournamentBranchPredictor n m (Some ml) (Some mg))
           = (if n \<le> unat (capacity m) \<and> n \<le> unat (capacity ml) \<and> n \<le> unat (capacity mg)
              then Some n else None) \<and>
         map_option T_PHT (TournamentBranchPredictor n m (Some ml) (Some mg))
           = (if n \<le> unat (capacity m) \<and> n \<le> unat (capacity ml) \<and> n \<le> unat (capacity mg)
              then Some (replicate n 3) else None) \<and>
         map_option used (TournamentBranchPredictor n m (Some ml) (Some mg))
           = (if n \<le> unat (capacity m) \<and> n \<le> unat (capacity ml) \<and> n \<le> unat (capacity mg)
              then Some 2 else None) \<and>
         map_option lbranch (TournamentBranchPredictor n m (Some ml) (Some mg))
           = (if n \<le> unat (capacity m) \<and> n \<le> unat (capacity mg)
              then LocalBranchPredictor n ml else None) \<and>
         map_option gbranch (TournamentBranchPredictor n m (Some ml) (Some mg))
           = (if n \<le> unat (capacity m) \<and> n \<le> unat (capacity ml)
              then GshareBranchPredictor n mg else None) \<and>
         TournamentBranchPredictor n m None new_g = None \<and>
         TournamentBranchPredictor n m (Some ml) None = None"
  by (simp add: LocalBranchPredictor_result GshareBranchPredictor_result
      TournamentBranchPredictor_def Let_def push_back_loop_fill)

theorem unsupported_size_constructors_witness:
  "\<not> valid_size 100 \<and>
   map_option L_numEntries (LocalBranchPredictor 100 \<lparr>uninit = 7, capacity = 4096\<rparr>) = Some 100 \<and>
   map_option L_PHT (LocalBranchPredictor 100 \<lparr>uninit = 7, capacity = 4096\<rparr>)
     = Some (replicate 100 3) \<and>
   map_option G_PHT (GshareBranchPredictor 100 \<lparr>uninit = 7, capacity = 4096\<rparr>)
     = Some (replicate 100 3) \<and>
   map_option T_PHT
     (TournamentBranchPredictor 100 \<lparr>uninit = 7, capacity = 4096\<rparr>
        (Some \<lparr>uninit = 8, capacity = 100\<rparr>) (Some \<lparr>uninit = 9, capacity = 100\<rparr>))
     = Some (replicate 100 3) \<and>
   map_option T_PHT
     (TournamentBranchPredictor 100 \<lparr>uninit = 7, capacity = 4096\<rparr>
        (Some \<lparr>uninit = 8, capacity = 99\<rparr>) (Some \<lparr>uninit = 9, capacity = 100\<rparr>))
     = None"
proof -
  have v: "\<not> valid_size 100" by (simp add: valid_size_def)
  show ?thesis
    using v unsupported_size_constructors [OF v, of "\<lparr>uninit = 7, capacity = 4096\<rparr>"
        "\<lparr>uninit = 8, capacity = 100\<rparr>" "\<lparr>uninit = 9, capacity = 100\<rparr>"]
      unsupported_size_constructors [OF v, of "\<lparr>uninit = 7, capacity = 4096\<rparr>"
        "\<lparr>uninit = 8, capacity = 99\<rparr>" "\<lparr>uninit = 9, capacity = 100\<rparr>"]
    by simp
qed

subsection \<open>C3: the gshare predictor\<close>

text \<open>
  Claim C3: for the gshare predictor with a valid table size \<open>n\<close>, in any state of that
  shape (mask \<open>n - 1\<close>, \<open>n\<close> counters, history below \<open>n\<close>), with
  \<open>idx = (address & IndexMask) XOR GHR\<close>: the index is below \<open>n\<close>,
  \<^verbatim>\<open>getPrediction\<close> returns \<open>PHT[idx] >= 2\<close> and changes nothing, and \<^verbatim>\<open>train\<close>
  bumps the counter at \<open>idx\<close> with the outcome and then sets the history to
  \<open>((idx << 1) | (outcome ? 1 : 0)) & IndexMask\<close>, leaving size and mask as they were.
\<close>

theorem gshare_predict_train:
  assumes "valid_size n" and "G_inv n s"
  shows "spec_gshare_idx n (G_GHR s) pc < n \<and>
         G_getPrediction s pc = Some (spec_read (G_PHT s) (spec_gshare_idx n (G_GHR s) pc), s) \<and>
         (\<exists>s'. G_train s pc b = Some s' \<and>
               G_PHT s' = bump (G_PHT s) (spec_gshare_idx n (G_GHR s) pc) b \<and>
               in_range n (G_GHR s') \<and>
               unat (G_GHR s') = spec_shift_in n (spec_gshare_idx n (G_GHR s) pc) b \<and>
               G_PHTsize s' = G_PHTsize s \<and> G_numEntries s' = G_numEntries s)"
proof (intro conjI)
  show "spec_gshare_idx n (G_GHR s) pc < n" by (rule G_index(3) [OF assms])
  show "G_getPrediction s pc = Some (spec_read (G_PHT s) (spec_gshare_idx n (G_GHR s) pc), s)"
    by (simp add: G_getPrediction_spec [OF assms] spec_read_def)
  have m: "G_PHTsize s = IndexMask n" using assms(2) by (simp add: G_inv_def)
  show "\<exists>s'. G_train s pc b = Some s' \<and>
               G_PHT s' = bump (G_PHT s) (spec_gshare_idx n (G_GHR s) pc) b \<and>
               in_range n (G_GHR s') \<and>
               unat (G_GHR s') = spec_shift_in n (spec_gshare_idx n (G_GHR s) pc) b \<and>
               G_PHTsize s' = G_PHTsize s \<and> G_numEntries s' = G_numEntries s"
    using shift_in_spec [OF assms(1), of "ucast (scast (IndexMask n) AND pc) XOR G_GHR s" b]
      G_index(2) [OF assms, of pc]
    by (simp add: G_train_spec [OF assms] m)
qed

theorem gshare_predict_train_witness:
  "valid_size 128 \<and> G_inv 128 (fresh_gshare 128) \<and>
   spec_gshare_idx 128 0 5 = 5 \<and>
   G_getPrediction (fresh_gshare 128) 5 = Some (True, fresh_gshare 128) \<and>
   (\<exists>s'. G_train (fresh_gshare 128) 5 False = Some s' \<and>
         G_PHT s' = (replicate 128 3)[5 := 2] \<and> unat (G_GHR s') = 10)"
proof -
  have v: "valid_size 128" by (simp add: valid_size_def)
  have i: "G_inv 128 (fresh_gshare 128)" by (rule fresh_gshare_inv(1) [OF v])
  have e: "spec_gshare_idx 128 0 5 = 5" by (simp add: spec_gshare_idx_def)
  have f: "G_GHR (fresh_gshare 128) = 0" "G_PHT (fresh_gshare 128) = replicate 128 3"
    by (simp_all add: fresh_gshare_def)
  have r: "spec_read (replicate 128 3) 5 = True" by (simp add: spec_read_def)
  have b: "bump (replicate 128 3) 5 False = (replicate 128 3)[5 := 2]" by (simp add: bump_def)
  have h: "spec_shift_in 128 5 False = 10" by (simp add: spec_shift_in_def)
  from gshare_predict_train [OF v i, of 5 False]
  have "G_getPrediction (fresh_gshare 128) 5 = Some (True, fresh_gshare 128)"
    and "\<exists>s'. G_train (fresh_gshare 128) 5 False = Some s' \<and>
         G_PHT s' = (replicate 128 3)[5 := 2] \<and> unat (G_GHR s') = 10"
    unfolding f e r b h by auto
  then show ?thesis using v i e by (intro conjI)
qed

subsection \<open>C4: the tournament predictor trains both sub-predictors\<close>

text \<open>
  Claim C4: in every reachable state of the tournament predictor and for every address
  and outcome, \<^verbatim>\<open>train\<close> first asks both sub-predictors, as they are before any
  training, for their predictions, which changes neither of them; then both
  sub-predictors' \<^verbatim>\<open>train\<close> return on that address and outcome, whatever \<^verbatim>\<open>used\<close>
  holds; the selector table is updated from the two predictions obtained before the
  training; and the tournament's \<^verbatim>\<open>train\<close> returns the state in which each
  sub-predictor is exactly what its own \<^verbatim>\<open>train\<close> gives and nothing else but the
  selector table has changed.
\<close>

theorem tournament_trains_both:
  assumes "valid_size n"
    and "TournamentBranchPredictor n m new_l new_g = Some s0"
    and "T_run s0 cs = Some s"
  shows "\<exists>gresult lresult g' l' v'.
           G_getPrediction (gbranch s) pc = Some (gresult, gbranch s) \<and>
           L_getPrediction (lbranch s) pc = Some (lresult, lbranch s) \<and>
           G_train (gbranch s) pc b = Some g' \<and> L_train (lbranch s) pc b = Some l' \<and>
           (if b then select_taken else select_not_taken) (used s) gresult lresult (T_PHT s)
             (ucast (scast (T_PHTsize s) AND pc)) = Some v' \<and>
           T_train s pc b = Some (s\<lparr>gbranch := g', lbranch := l', T_PHT := v'\<rparr>)"
proof -
  have inv: "T_inv n s" by (rule T_reachable_inv(1) [OF assms])
  obtain g' l' v' where "G_train (gbranch s) pc b = Some g'"
    and "L_train (lbranch s) pc b = Some l'"
    and "(if b then select_taken else select_not_taken) (used s)
        (spec_gshare_predict n (gbranch s) pc) (spec_local_predict n (lbranch s) pc)
        (T_PHT s) (ucast (scast (T_PHTsize s) AND pc)) = Some v'"
    and "T_train s pc b = Some (s\<lparr>gbranch := g', lbranch := l', T_PHT := v'\<rparr>)"
    by (rule T_train_spec [OF assms(1) inv])
  then show ?thesis using T_sub_predictions [OF assms(1) inv, of pc] by blast
qed

theorem tournament_trains_both_witness:
  "valid_size 128 \<and>
   TournamentBranchPredictor 128 \<lparr>uninit = 0, capacity = 128\<rparr>
     (Some \<lparr>uninit = 0, capacity = 128\<rparr>) (Some \<lparr>uninit = 0, capacity = 128\<rparr>)
     = Some (fresh_tournament 128) \<and>
   T_run (fresh_tournament 128)
     [Predict 0, Train 0 False, Predict 0, Train 0 False, Predict 5, Train 5 True, Predict 11]
     = Some (the (T_run (fresh_tournament 128)
         [Predict 0, Train 0 False, Predict 0, Train 0 False, Predict 5, Train 5 True,
          Predict 11])) \<and>
   (\<exists>s g' l' v'.
      T_run (fresh_tournament 128)
        [Predict 0, Train 0 False, Predict 0, Train 0 False, Predict 5, Train 5 True, Predict 11]
        = Some s \<and>
      G_getPrediction (gbranch s) 11 = Some (False, gbranch s) \<and>
      L_getPrediction (lbranch s) 11 = Some (True, lbranch s) \<and>
      G_train (gbranch s) 11 True = Some g' \<and> L_train (lbranch s) 11 True = Some l' \<and>
      select_taken (used s) False True (T_PHT s) (ucast (scast (T_PHTsize s) AND (11::ADDRINT)))
        = Some v' \<and>
      T_train s 11 True = Some (s\<lparr>gbranch := g', lbranch := l', T_PHT := v'\<rparr>) \<and>
      T_PHT s ! 11 = 3 \<and> v' ! 11 = 2 \<and>
      map_option fst (G_getPrediction g' 11) = Some True)"
proof -
  let ?cs = "[Predict 0, Train 0 False, Predict 0, Train 0 False, Predict 5, Train 5 True,
              Predict 11]"
  let ?s = "the (T_run (fresh_tournament 128) ?cs)"
  have v: "valid_size 128" by (simp add: valid_size_def)
  have c: "TournamentBranchPredictor 128 \<lparr>uninit = 0, capacity = 128\<rparr>
     (Some \<lparr>uninit = 0, capacity = 128\<rparr>) (Some \<lparr>uninit = 0, capacity = 128\<rparr>)
     = Some (fresh_tournament 128)"
    by code_simp
  have r: "T_run (fresh_tournament 128) ?cs = Some ?s" by code_simp
  have gp: "G_getPrediction (gbranch ?s) 11 = Some (False, gbranch ?s)" by code_simp
  have lp: "L_getPrediction (lbranch ?s) 11 = Some (True, lbranch ?s)" by code_simp
  have before: "T_PHT ?s ! 11 = 3" by code_simp
  have sel: "map_option (\<lambda>w. w ! 11)
      (select_taken (used ?s) False True (T_PHT ?s) (ucast (scast (T_PHTsize ?s) AND (11::ADDRINT))))
      = Some 2"
    by code_simp
  have post: "map_option fst (Option.bind (G_train (gbranch ?s) 11 True) (\<lambda>g. G_getPrediction g 11))
      = Some True"
    by code_simp
  from tournament_trains_both [OF v c r, of 11 True] obtain gresult lresult g' l' v' where
    t: "G_getPrediction (gbranch ?s) 11 = Some (gresult, gbranch ?s)"
      "L_getPrediction (lbranch ?s) 11 = Some (lresult, lbranch ?s)"
      "G_train (gbranch ?s) 11 True = Some g'" "L_train (lbranch ?s) 11 True = Some l'"
      "select_taken (used ?s) gresult lresult (T_PHT ?s) (ucast (scast (T_PHTsize ?s) AND (11::ADDRINT)))
         = Some v'"
      "T_train ?s 11 True = Some (?s\<lparr>gbranch := g', lbranch := l', T_PHT := v'\<rparr>)"
    by auto
  have g: "gresult = False" using t(1) gp by simp
  have l: "lresult = True" using t(2) lp by simp
  have "v' ! 11 = 2" using sel t(5) unfolding g l by simp
  moreover have "map_option fst (G_getPrediction g' 11) = Some True"
    using post t(3) by simp
  ultimately have "\<exists>s g' l' v'.
      T_run (fresh_tournament 128) ?cs = Some s \<and>
      G_getPrediction (gbranch s) 11 = Some (False, gbranch s) \<and>
      L_getPrediction (lbranch s) 11 = Some (True, lbranch s) \<and>
      G_train (gbranch s) 11 True = Some g' \<and> L_train (lbranch s) 11 True = Some l' \<and>
      select_taken (used s) False True (T_PHT s) (ucast (scast (T_PHTsize s) AND (11::ADDRINT)))
        = Some v' \<and>
      T_train s 11 True = Some (s\<lparr>gbranch := g', lbranch := l', T_PHT := v'\<rparr>) \<and>
      T_PHT s ! 11 = 3 \<and> v' ! 11 = 2 \<and>
      map_option fst (G_getPrediction g' 11) = Some True"
    using r gp lp before t(3,4,5,6) unfolding g l by blast
  then show ?thesis using v c r by (intro conjI)
qed

subsection \<open>C5: counters start at 3 and stay in 0..3\<close>

text \<open>
  Claim C5: for a valid table size, once a constructor has returned, every counter of every table (the selector table of the
  tournament predictor and the tables of its two sub-predictors among them) is 3 after
  construction; every sequence of \<^verbatim>\<open>getPrediction\<close> and \<^verbatim>\<open>train\<close> calls returns and
  leaves every counter in 0..3. In a state so reached, training a taken branch leaves
  the table as it is when the counter is 3 and adds one to the counter otherwise;
  training a branch that was not taken leaves the table as it is when the counter is 0
  and subtracts one otherwise; the selector table is left alone or bumped up or down at
  the address's bucket.
\<close>

theorem counters_saturate:
  assumes "valid_size n"
    and "LocalBranchPredictor n ml = Some sl"
    and "GshareBranchPredictor n mg = Some sg"
    and "TournamentBranchPredictor n m new_l new_g = Some st"
  shows "L_PHT sl = replicate n 3 \<and>
         G_PHT sg = replicate n 3 \<and>
         T_PHT st = replicate n 3 \<and>
         G_PHT (gbranch st) = replicate n 3 \<and>
         L_PHT (lbranch st) = replicate n 3 \<and>
         (\<exists>s t f. L_run sl cs = Some s \<and> counters_ok (L_PHT s) \<and>
              L_train s pc True = Some t \<and>
              L_PHT t = (if sint (L_PHT s ! spec_local_idx n (L_LHR s) pc) = 3 then L_PHT s
                         else (L_PHT s)[spec_local_idx n (L_LHR s) pc :=
                                 L_PHT s ! spec_local_idx n (L_LHR s) pc + 1]) \<and>
              L_train s pc False = Some f \<and>
              L_PHT f = (if sint (L_PHT s ! spec_local_idx n (L_LHR s) pc) = 0 then L_PHT s
                         else (L_PHT s)[spec_local_idx n (L_LHR s) pc :=
                                 L_PHT s ! spec_local_idx n (L_LHR s) pc - 1])) \<and>
         (\<exists>s t f. G_run sg cs = Some s \<and> counters_ok (G_PHT s) \<and>
              G_train s pc True = Some t \<and>
              G_PHT t = (if sint (G_PHT s ! spec_gshare_idx n (G_GHR s) pc) = 3 then G_PHT s
                         else (G_PHT s)[spec_gshare_idx n (G_GHR s) pc :=
                                 G_PHT s ! spec_gshare_idx n (G_GHR s) pc + 1]) \<and>
              G_train s pc False = Some f \<and>
              G_PHT f = (if sint (G_PHT s ! spec_gshare_idx n (G_GHR s) pc) = 0 then G_PHT s
                         else (G_PHT s)[spec_gshare_idx n (G_GHR s) pc :=
                                 G_PHT s ! spec_gshare_idx n (G_GHR s) pc - 1])) \<and>
         (\<exists>s s'. T_run st cs = Some s \<and>
              counters_ok (T_PHT s) \<and> counters_ok (G_PHT (gbranch s)) \<and>
              counters_ok (L_PHT (lbranch s)) \<and>
              T_train s pc b = Some s' \<and>
              (T_PHT s' = T_PHT s \<or> T_PHT s' = bump (T_PHT s) (spec_sel n pc) True \<or>
               T_PHT s' = bump (T_PHT s) (spec_sel n pc) False))"
proof (intro conjI)
  note fl = LocalBranchPredictor_fresh [OF assms(1,2)]
  note fg = GshareBranchPredictor_fresh [OF assms(1,3)]
  note ft = TournamentBranchPredictor_fresh [OF assms(1,4)]
  show "L_PHT sl = replicate n 3" by (simp add: fl fresh_local_def)
  show "G_PHT sg = replicate n 3" by (simp add: fg fresh_gshare_def)
  show "T_PHT st = replicate n 3" by (simp add: ft fresh_tournament_def)
  show "G_PHT (gbranch st) = replicate n 3"
    by (simp add: ft fresh_tournament_def fresh_gshare_def)
  show "L_PHT (lbranch st) = replicate n 3"
    by (simp add: ft fresh_tournament_def fresh_local_def)
  show "\<exists>s t f. L_run sl cs = Some s \<and> counters_ok (L_PHT s) \<and>
              L_train s pc True = Some t \<and>
              L_PHT t = (if sint (L_PHT s ! spec_local_idx n (L_LHR s) pc) = 3 then L_PHT s
                         else (L_PHT s)[spec_local_idx n (L_LHR s) pc :=
                                 L_PHT s ! spec_local_idx n (L_LHR s) pc + 1]) \<and>
              L_train s pc False = Some f \<and>
              L_PHT f = (if sint (L_PHT s ! spec_local_idx n (L_LHR s) pc) = 0 then L_PHT s
                         else (L_PHT s)[spec_local_idx n (L_LHR s) pc :=
                                 L_PHT s ! spec_local_idx n (L_LHR s) pc - 1])"
  proof -
    from L_reachable_inv [OF assms(1,2), of cs] obtain s where
      s: "L_run sl cs = Some s" "L_inv n s" "counters_ok (L_PHT s)" by blast
    have "spec_local_idx n (L_LHR s) pc < length (L_PHT s)"
      using L_index(3) [OF assms(1) s(2)] s(2) by (simp add: L_inv_def)
    then have c: "0 \<le> sint (L_PHT s ! spec_local_idx n (L_LHR s) pc)"
      "sint (L_PHT s ! spec_local_idx n (L_LHR s) pc) \<le> 3"
      using counters_ok_nth [OF s(3)] by simp_all
    show ?thesis
      by (rule exI [of _ s], rule exI [of _ "the (L_train s pc True)"],
          rule exI [of _ "the (L_train s pc False)"])
        (simp add: s(1,3) L_train_spec [OF assms(1) s(2)] bump_explicit [OF c])
  qed
  show "\<exists>s t f. G_run sg cs = Some s \<and> counters_ok (G_PHT s) \<and>
              G_train s pc True = Some t \<and>
              G_PHT t = (if sint (G_PHT s ! spec_gshare_idx n (G_GHR s) pc) = 3 then G_PHT s
                         else (G_PHT s)[spec_gshare_idx n (G_GHR s) pc :=
                                 G_PHT s ! spec_gshare_idx n (G_GHR s) pc + 1]) \<and>
              G_train s pc False = Some f \<and>
              G_PHT f = (if sint (G_PHT s ! spec_gshare_idx n (G_GHR s) pc) = 0 then G_PHT s
                         else (G_PHT s)[spec_gshare_idx n (G_GHR s) pc :=
                                 G_PHT s ! spec_gshare_idx n (G_GHR s) pc - 1])"
  proof -
    from G_reachable_inv [OF assms(1,3), of cs] obtain s where
      s: "G_run sg cs = Some s" "G_inv n s" "counters_ok (G_PHT s)" by blast
    have "spec_gshare_idx n (G_GHR s) pc < length (G_PHT s)"
      using G_index(3) [OF assms(1) s(2)] s(2) by (simp add: G_inv_def)
    then have c: "0 \<le> sint (G_PHT s ! spec_gshare_idx n (G_GHR s) pc)"
      "sint (G_PHT s ! spec_gshare_idx n (G_GHR s) pc) \<le> 3"
      using counters_ok_nth [OF s(3)] by simp_all
    show ?thesis
      by (rule exI [of _ s], rule exI [of _ "the (G_train s pc True)"],
          rule exI [of _ "the (G_train s pc False)"])
        (simp add: s(1,3) G_train_spec [OF assms(1) s(2)] bump_explicit [OF c])
  qed
  show "\<exists>s s'. T_run st cs = Some s \<and>
              counters_ok (T_PHT s) \<and> counters_ok (G_PHT (gbranch s)) \<and>
              counters_ok (L_PHT (lbranch s)) \<and>
              T_train s pc b = Some s' \<and>
              (T_PHT s' = T_PHT s \<or> T_PHT s' = bump (T_PHT s) (spec_sel n pc) True \<or>
               T_PHT s' = bump (T_PHT s) (spec_sel n pc) False)"
  proof -
    from T_reachable_total [OF assms(1,4), of cs] obtain s where
      s: "T_run st cs = Some s" "T_inv n s" "T_counters_ok s"
      by blast
    obtain g' l' v' where
      v': "(if b then select_taken else select_not_taken) (used s)
        (spec_gshare_predict n (gbranch s) pc) (spec_local_predict n (lbranch s) pc)
        (T_PHT s) (ucast (scast (T_PHTsize s) AND pc)) = Some v'"
      and t: "T_train s pc b = Some (s\<lparr>gbranch := g', lbranch := l', T_PHT := v'\<rparr>)"
      by (rule T_train_spec [OF assms(1) s(2)])
    note r = T_sel(1) [OF assms(1) s(2), of pc]
    note e = T_sel(2) [OF assms(1) s(2), of pc]
    have "v' = T_PHT s \<or> v' = bump (T_PHT s) (spec_sel n pc) True \<or>
          v' = bump (T_PHT s) (spec_sel n pc) False"
      using v'
      by (cases b) (auto simp add: select_taken_bump [OF r] select_not_taken_bump [OF r] e
          split: if_splits)
    then have "T_PHT (s\<lparr>gbranch := g', lbranch := l', T_PHT := v'\<rparr>) = T_PHT s \<or>
          T_PHT (s\<lparr>gbranch := g', lbranch := l', T_PHT := v'\<rparr>) = bump (T_PHT s) (spec_sel n pc) True \<or>
          T_PHT (s\<lparr>gbranch := g', lbranch := l', T_PHT := v'\<rparr>) = bump (T_PHT s) (spec_sel n pc) False"
      by simp
    with s(1,3) t show ?thesis unfolding T_counters_ok_def by blast
  qed
qed

theorem counters_saturate_witness:
  "valid_size 128 \<and>
   LocalBranchPredictor 128 \<lparr>uninit = 0, capacity = 128\<rparr> = Some (fresh_local 128) \<and>
   GshareBranchPredictor 128 \<lparr>uninit = 0, capacity = 128\<rparr> = Some (fresh_gshare 128) \<and>
   TournamentBranchPredictor 128 \<lparr>uninit = 0, capacity = 128\<rparr>
     (Some \<lparr>uninit = 0, capacity = 128\<rparr>) (Some \<lparr>uninit = 0, capacity = 128\<rparr>)
     = Some (fresh_tournament 128) \<and>
   L_PHT (fresh_local 128) = replicate 128 3 \<and>
   G_PHT (fresh_gshare 128) = replicate 128 3 \<and>
   T_PHT (fresh_tournament 128) = replicate 128 3 \<and>
   (\<exists>s. L_run (fresh_local 128) [Predict 5, Train 5 True] = Some s \<and>
        counters_ok (L_PHT s)) \<and>
   (\<exists>s. G_run (fresh_gshare 128) [Predict 5, Train 5 True] = Some s \<and>
        counters_ok (G_PHT s)) \<and>
   (\<exists>s. T_run (fresh_tournament 128) [Predict 5, Train 5 True] = Some s \<and>
        counters_ok (T_PHT s))"
proof -
  have v: "valid_size 128" by (simp add: valid_size_def)
  have l: "LocalBranchPredictor 128 \<lparr>uninit = 0, capacity = 128\<rparr> = Some (fresh_local 128)"
    by (simp add: LocalBranchPredictor_result fresh_local_def IndexMask_def)
  have g: "GshareBranchPredictor 128 \<lparr>uninit = 0, capacity = 128\<rparr> = Some (fresh_gshare 128)"
    by (simp add: GshareBranchPredictor_result fresh_gshare_def IndexMask_def)
  have t: "TournamentBranchPredictor 128 \<lparr>uninit = 0, capacity = 128\<rparr>
     (Some \<lparr>uninit = 0, capacity = 128\<rparr>) (Some \<lparr>uninit = 0, capacity = 128\<rparr>)
     = Some (fresh_tournament 128)"
    using l g by (simp add: TournamentBranchPredictor_Some fresh_tournament_def IndexMask_def)
  from counters_saturate [OF v l g t, of "[Predict 5, Train 5 True]" 5 True] v l g t
  show ?thesis by blast
qed

subsection \<open>C6: the local predictor\<close>

text \<open>
  Claim C6: for the local predictor with a valid table size \<open>n\<close>, in any state of that
  shape, the bucket is \<open>address & 0b1111111\<close>, below the 128 history registers whatever
  \<open>n\<close> is; with \<open>idx = LHR[bucket] & IndexMask\<close>, \<^verbatim>\<open>getPrediction\<close> returns
  \<open>PHT[idx] >= 2\<close> and changes nothing, and \<^verbatim>\<open>train\<close> bumps the counter at \<open>idx\<close>
  with the outcome and then sets \<open>LHR[bucket]\<close> to
  \<open>((idx << 1) | (outcome ? 1 : 0)) & IndexMask\<close>, leaving the other registers alone.
\<close>

theorem local_predict_train:
  assumes "valid_size n" and "L_inv n s"
  shows "spec_bucket pc < 128 \<and> length (L_LHR s) = 128 \<and>
         spec_local_idx n (L_LHR s) pc < n \<and>
         L_getPrediction s pc = Some (spec_read (L_PHT s) (spec_local_idx n (L_LHR s) pc), s) \<and>
         (\<exists>s' h. L_train s pc b = Some s' \<and>
               L_PHT s' = bump (L_PHT s) (spec_local_idx n (L_LHR s) pc) b \<and>
               L_LHR s' = (L_LHR s)[spec_bucket pc := h] \<and> in_range n h \<and>
               unat h = spec_shift_in n (spec_local_idx n (L_LHR s) pc) b \<and>
               L_PHTsize s' = L_PHTsize s \<and> L_numEntries s' = L_numEntries s)"
proof (intro conjI)
  show "spec_bucket pc < 128" by (rule L_bucket(2))
  show "length (L_LHR s) = 128" using assms(2) by (simp add: L_inv_def)
  show "spec_local_idx n (L_LHR s) pc < n" by (rule L_index(3) [OF assms])
  show "L_getPrediction s pc = Some (spec_read (L_PHT s) (spec_local_idx n (L_LHR s) pc), s)"
    by (simp add: L_getPrediction_spec [OF assms] spec_read_def)
  let ?h = "shift_in (IndexMask n) (L_LHR s ! spec_bucket pc) b"
  let ?s' = "s\<lparr>L_PHT := bump (L_PHT s) (spec_local_idx n (L_LHR s) pc) b,
                L_LHR := (L_LHR s)[spec_bucket pc := ?h]\<rparr>"
  have t: "L_train s pc b = Some ?s'" by (rule L_train_spec [OF assms])
  have r: "in_range n ?h" by (rule shift_in_spec(1) [OF assms(1)])
  have u: "unat ?h = spec_shift_in n (spec_local_idx n (L_LHR s) pc) b"
    by (simp add: shift_in_spec(2) [OF assms(1)] L_index(2) [OF assms])
  show "\<exists>s' h. L_train s pc b = Some s' \<and>
               L_PHT s' = bump (L_PHT s) (spec_local_idx n (L_LHR s) pc) b \<and>
               L_LHR s' = (L_LHR s)[spec_bucket pc := h] \<and> in_range n h \<and>
               unat h = spec_shift_in n (spec_local_idx n (L_LHR s) pc) b \<and>
               L_PHTsize s' = L_PHTsize s \<and> L_numEntries s' = L_numEntries s"
    using t r u by (intro exI [of _ ?s'] exI [of _ ?h]) simp
qed

theorem local_predict_train_witness:
  "valid_size 1024 \<and> L_inv 1024 (fresh_local 1024) \<and>
   spec_bucket 4101 = 5 \<and> spec_local_idx 1024 (replicate 128 0) 4101 = 0 \<and>
   L_getPrediction (fresh_local 1024) 4101 = Some (True, fresh_local 1024) \<and>
   (\<exists>s' h. L_train (fresh_local 1024) 4101 True = Some s' \<and>
         L_PHT s' = replicate 1024 3 \<and> L_LHR s' = (replicate 128 0)[5 := h] \<and> unat h = 1)"
proof -
  have v: "valid_size 1024" by (simp add: valid_size_def)
  have i: "L_inv 1024 (fresh_local 1024)" by (rule fresh_local_inv(1) [OF v])
  have k: "spec_bucket 4101 = 5" by (simp add: spec_bucket_def)
  have e: "spec_local_idx 1024 (replicate 128 0) 4101 = 0" by (simp add: spec_local_idx_def k)
  have f: "L_LHR (fresh_local 1024) = replicate 128 0"
    "L_PHT (fresh_local 1024) = replicate 1024 3"
    by (simp_all add: fresh_local_def)
  have r: "spec_read (replicate 1024 3) 0 = True" by (simp add: spec_read_def)
  have b: "bump (replicate 1024 3) 0 True = replicate 1024 3" by (simp add: bump_def)
  have h: "spec_shift_in 1024 0 True = 1" by (simp add: spec_shift_in_def)
  from local_predict_train [OF v i, of 4101 True]
  have "L_getPrediction (fresh_local 1024) 4101 = Some (True, fresh_local 1024)"
    and "\<exists>s' h. L_train (fresh_local 1024) 4101 True = Some s' \<and>
         L_PHT s' = replicate 1024 3 \<and> L_LHR s' = (replicate 128 0)[5 := h] \<and> unat h = 1"
    unfolding f e r b h k by auto
  then show ?thesis using v i k e by (intro conjI)
qed

subsection \<open>C7: the end-to-end scenario\<close>

text \<open>
  Claim C7: a freshly constructed local predictor of table size 128 is given address
  \<open>0x1000\<close> with outcomes true, true, true, false, each as \<^verbatim>\<open>getPrediction\<close> then
  \<^verbatim>\<open>train\<close>. The first prediction is taken. Before the fourth training the history
  register of the address's bucket (bucket 0) holds index 7 and the counter read there is
  3; after it that counter is 2, one less, and the register holds \<open>(7 << 1) & 127 = 14\<close>.
\<close>

theorem local_scenario:
  assumes "LocalBranchPredictor 128 m = Some s0"
  shows "map_option fst (L_getPrediction s0 4096) = Some True \<and>
   spec_bucket 4096 = 0 \<and>
   map_option (\<lambda>s. (L_LHR s ! 0, L_PHT s ! 7))
     (L_run s0
        [Predict 4096, Train 4096 True, Predict 4096, Train 4096 True,
         Predict 4096, Train 4096 True, Predict 4096]) = Some (7, 3) \<and>
   map_option (\<lambda>s. (L_LHR s ! 0, L_PHT s ! 7))
     (L_run s0
        [Predict 4096, Train 4096 True, Predict 4096, Train 4096 True,
         Predict 4096, Train 4096 True, Predict 4096, Train 4096 False]) = Some (14, 2) \<and>
   spec_shift_in 128 7 False = 14"
proof -
  have "valid_size 128" by (simp add: valid_size_def)
  then have s0: "s0 = fresh_local 128" using assms by (rule LocalBranchPredictor_fresh)
  have "spec_bucket 4096 = 0" by (simp add: spec_bucket_def)
  moreover have "spec_shift_in 128 7 False = 14" by (simp add: spec_shift_in_def)
  moreover have "map_option fst (L_getPrediction (fresh_local 128) 4096) = Some True"
    by code_simp
  moreover have "map_option (\<lambda>s. (L_LHR s ! 0, L_PHT s ! 7))
     (L_run (fresh_local 128)
        [Predict 4096, Train 4096 True, Predict 4096, Train 4096 True,
         Predict 4096, Train 4096 True, Predict 4096]) = Some (7, 3)"
    by code_simp
  moreover have "map_option (\<lambda>s. (L_LHR s ! 0, L_PHT s ! 7))
     (L_run (fresh_local 128)
        [Predict 4096, Train 4096 True, Predict 4096, Train 4096 True,
         Predict 4096, Train 4096 True, Predict 4096, Train 4096 False]) = Some (14, 2)"
    by code_simp
  ultimately show ?thesis unfolding s0 by (intro conjI)
qed

theorem local_scenario_witness:
  "LocalBranchPredictor 128 \<lparr>uninit = 0, capacity = 128\<rparr> = Some (fresh_local 128) \<and>
   map_option fst (L_getPrediction (fresh_local 128) 4096) = Some True \<and>
   map_option (\<lambda>s. (L_LHR s ! 0, L_PHT s ! 7))
     (L_run (fresh_local 128)
        [Predict 4096, Train 4096 True, Predict 4096, Train 4096 True,
         Predict 4096, Train 4096 True, Predict 4096]) = Some (7, 3) \<and>
   map_option (\<lambda>s. (L_LHR s ! 0, L_PHT s ! 7))
     (L_run (fresh_local 128)
        [Predict 4096, Train 4096 True, Predict 4096, Train 4096 True,
         Predict 4096, Train 4096 True, Predict 4096, Train 4096 False]) = Some (14, 2)"
proof -
  have l: "LocalBranchPredictor 128 \<lparr>uninit = 0, capacity = 128\<rparr> = Some (fresh_local 128)"
    by (simp add: LocalBranchPredictor_result fresh_local_def IndexMask_def)
  from local_scenario [OF l] l show ?thesis by (intro conjI) simp_all
qed

subsection \<open>C8: what getPrediction changes\<close>

text \<open>
  Claim C8 says that \<^verbatim>\<open>getPrediction\<close> leaves all predictor state unchanged, that the
  tournament predictor's record of the sub-predictor used is not kept across calls, and
  that leaving out a \<^verbatim>\<open>getPrediction\<close> before a \<^verbatim>\<open>train\<close> never changes what
  \<^verbatim>\<open>train\<close> does to a table. In the code \<^verbatim>\<open>used\<close> is a data member: the first
  \<^verbatim>\<open>getPrediction\<close> of a tournament predictor constructed with table size 128 changes
  it from 2 to 0, and \<^verbatim>\<open>train\<close> reads it. After three trainings, training address 11
  as taken leaves the selector counter of bucket 11 at 3 when no \<^verbatim>\<open>getPrediction\<close> came
  first, and lowers it to 2 when \<^verbatim>\<open>getPrediction\<close> for address 11 came first.
\<close>

theorem tournament_prediction_changes_used:
  "TournamentBranchPredictor 128 \<lparr>uninit = 0, capacity = 128\<rparr>
     (Some \<lparr>uninit = 0, capacity = 128\<rparr>) (Some \<lparr>uninit = 0, capacity = 128\<rparr>)
     = Some (fresh_tournament 128) \<and>
   used (fresh_tournament 128) = 2 \<and>
   map_option (used \<circ> snd) (T_getPrediction (fresh_tournament 128) 11) = Some 0 \<and>
   map_option (T_observe 128 11)
     (T_run (fresh_tournament 128)
        [Train 0 False, Train 0 False, Train 5 True, Train 11 True])
     = Some (True, True, 2, 3) \<and>
   map_option (T_observe 128 11)
     (T_run (fresh_tournament 128)
        [Train 0 False, Train 0 False, Train 5 True, Predict 11, Train 11 True])
     = Some (True, True, 0, 2)"
  by code_simp

text \<open>
  Claim C8, as amended: in every reachable state, \<^verbatim>\<open>getPrediction\<close> of the local and of
  the gshare predictor returns and changes nothing; \<^verbatim>\<open>getPrediction\<close> of the tournament
  predictor returns and changes no table and neither sub-predictor, but sets the member
  \<^verbatim>\<open>used\<close> to 0 when the selector counter of the address's bucket is at least 2 and
  to 1 otherwise. The member is kept for the next \<^verbatim>\<open>train\<close>. What \<^verbatim>\<open>getPrediction\<close>
  returns and stores does not depend on the value \<^verbatim>\<open>used\<close> had, so repeating the call
  for the same address changes nothing further.
\<close>

theorem prediction_frame:
  assumes "valid_size n"
    and "LocalBranchPredictor n ml = Some sl0" and "L_run sl0 csl = Some sl"
    and "GshareBranchPredictor n mg = Some sg0" and "G_run sg0 csg = Some sg"
    and "TournamentBranchPredictor n m new_l new_g = Some st0" and "T_run st0 cst = Some st"
  shows "map_option snd (L_getPrediction sl pc) = Some sl \<and>
         map_option snd (G_getPrediction sg pc) = Some sg \<and>
         map_option snd (T_getPrediction st pc) =
           Some (st\<lparr>used := (if spec_read (T_PHT st) (spec_sel n pc) then 0 else 1)\<rparr>) \<and>
         T_getPrediction (st\<lparr>used := c\<rparr>) pc = T_getPrediction st pc"
proof -
  have l: "L_inv n sl" by (rule L_reachable_state(1) [OF assms(1,2,3)])
  have g: "G_inv n sg" by (rule G_reachable_state(1) [OF assms(1,4,5)])
  have t: "T_inv n st" by (rule T_reachable_inv(1) [OF assms(1,6,7)])
  have t': "T_inv n (st\<lparr>used := c\<rparr>)" using t by (simp add: T_inv_used)
  show ?thesis
    by (simp add: L_getPrediction_spec [OF assms(1) l] G_getPrediction_spec [OF assms(1) g]
        T_getPrediction_spec [OF assms(1) t] T_getPrediction_spec [OF assms(1) t'])
qed

theorem prediction_frame_witness:
  "valid_size 128 \<and>
   LocalBranchPredictor 128 \<lparr>uninit = 0, capacity = 128\<rparr> = Some (fresh_local 128) \<and>
   L_run (fresh_local 128) [] = Some (fresh_local 128) \<and>
   GshareBranchPredictor 128 \<lparr>uninit = 0, capacity = 128\<rparr> = Some (fresh_gshare 128) \<and>
   G_run (fresh_gshare 128) [] = Some (fresh_gshare 128) \<and>
   TournamentBranchPredictor 128 \<lparr>uninit = 0, capacity = 128\<rparr>
     (Some \<lparr>uninit = 0, capacity = 128\<rparr>) (Some \<lparr>uninit = 0, capacity = 128\<rparr>)
     = Some (fresh_tournament 128) \<and>
   T_run (fresh_tournament 128) [] = Some (fresh_tournament 128) \<and>
   map_option snd (L_getPrediction (fresh_local 128) 5) = Some (fresh_local 128) \<and>
   map_option snd (G_getPrediction (fresh_gshare 128) 5) = Some (fresh_gshare 128) \<and>
   map_option snd (T_getPrediction (fresh_tournament 128) 5)
     = Some ((fresh_tournament 128)\<lparr>used := 0\<rparr>) \<and>
   T_getPrediction ((fresh_tournament 128)\<lparr>used := 0\<rparr>) 5
     = T_getPrediction (fresh_tournament 128) 5"
proof -
  have v: "valid_size 128" by (simp add: valid_size_def)
  have cl: "LocalBranchPredictor 128 \<lparr>uninit = 0, capacity = 128\<rparr> = Some (fresh_local 128)"
    by (simp add: LocalBranchPredictor_result fresh_local_def IndexMask_def)
  have cg: "GshareBranchPredictor 128 \<lparr>uninit = 0, capacity = 128\<rparr> = Some (fresh_gshare 128)"
    by (simp add: GshareBranchPredictor_result fresh_gshare_def IndexMask_def)
  have ct: "TournamentBranchPredictor 128 \<lparr>uninit = 0, capacity = 128\<rparr>
     (Some \<lparr>uninit = 0, capacity = 128\<rparr>) (Some \<lparr>uninit = 0, capacity = 128\<rparr>)
     = Some (fresh_tournament 128)"
    using cl cg by (simp add: TournamentBranchPredictor_Some fresh_tournament_def IndexMask_def)
  have l: "L_run (fresh_local 128) [] = Some (fresh_local 128)" by simp
  have g: "G_run (fresh_gshare 128) [] = Some (fresh_gshare 128)" by simp
  have t: "T_run (fresh_tournament 128) [] = Some (fresh_tournament 128)" by simp
  have r: "spec_read (T_PHT (fresh_tournament 128)) (spec_sel 128 5) = True"
    by (simp add: fresh_tournament_def spec_read_def spec_sel_def)
  from prediction_frame [OF v cl l cg g ct t, of 5 0]
  have "map_option snd (L_getPrediction (fresh_local 128) 5) = Some (fresh_local 128)"
    and "map_option snd (G_getPrediction (fresh_gshare 128) 5) = Some (fresh_gshare 128)"
    and "map_option snd (T_getPrediction (fresh_tournament 128) 5)
          = Some ((fresh_tournament 128)\<lparr>used := 0\<rparr>)"
    and "T_getPrediction ((fresh_tournament 128)\<lparr>used := 0\<rparr>) 5
          = T_getPrediction (fresh_tournament 128) 5"
    unfolding r by simp_all
  then show ?thesis using v cl l cg g ct t by (intro conjI)
qed

subsection \<open>C9: indices stay inside the tables\<close>

text \<open>
  Claim C9: for a valid table size \<open>n\<close>, every sequence of \<^verbatim>\<open>getPrediction\<close> and
  \<^verbatim>\<open>train\<close> calls on a predictor its constructor has just returned returns (no
  \<^verbatim>\<open>at\<close> throws), and in the
  state reached the tables have \<open>n\<close> entries, the global history and every local history
  register are in \<open>[0, n)\<close>, and for every address the index taken from the local history,
  the index \<open>masked address XOR GHR\<close> and the masked selector index are in \<open>[0, n)\<close>;
  so the next \<^verbatim>\<open>getPrediction\<close> and \<^verbatim>\<open>train\<close> return too. The same holds for the two
  sub-predictors inside the tournament predictor.
\<close>

theorem indices_in_range:
  assumes "valid_size n"
    and "LocalBranchPredictor n ml = Some sl"
    and "GshareBranchPredictor n mg = Some sg"
    and "TournamentBranchPredictor n m new_l new_g = Some st"
  shows "(\<exists>s. L_run sl cs = Some s \<and>
              length (L_PHT s) = n \<and> list_all (in_range n) (L_LHR s) \<and>
              in_range n (L_LHR s ! nat (sint (ucast (127 AND pc) :: cint))) \<and>
              L_getPrediction s pc \<noteq> None \<and> L_train s pc b \<noteq> None) \<and>
         (\<exists>s. G_run sg cs = Some s \<and>
              length (G_PHT s) = n \<and> in_range n (G_GHR s) \<and>
              in_range n (ucast (scast (G_PHTsize s) AND pc) XOR G_GHR s) \<and>
              G_getPrediction s pc \<noteq> None \<and> G_train s pc b \<noteq> None) \<and>
         (\<exists>s. T_run st cs = Some s \<and>
              length (T_PHT s) = n \<and>
              in_range n (ucast (scast (T_PHTsize s) AND pc)) \<and>
              length (L_PHT (lbranch s)) = n \<and> list_all (in_range n) (L_LHR (lbranch s)) \<and>
              in_range n (L_LHR (lbranch s) ! nat (sint (ucast (127 AND pc) :: cint))) \<and>
              length (G_PHT (gbranch s)) = n \<and> in_range n (G_GHR (gbranch s)) \<and>
              in_range n (ucast (scast (G_PHTsize (gbranch s)) AND pc) XOR G_GHR (gbranch s)) \<and>
              T_getPrediction s pc \<noteq> None \<and> T_train s pc b \<noteq> None)"
proof (intro conjI)
  show "\<exists>s. L_run sl cs = Some s \<and>
              length (L_PHT s) = n \<and> list_all (in_range n) (L_LHR s) \<and>
              in_range n (L_LHR s ! nat (sint (ucast (127 AND pc) :: cint))) \<and>
              L_getPrediction s pc \<noteq> None \<and> L_train s pc b \<noteq> None"
  proof -
    from L_reachable_inv [OF assms(1,2), of cs] obtain s where
      s: "L_run sl cs = Some s" "L_inv n s" by blast
    show ?thesis
      using s L_index(1) [OF assms(1) s(2), of pc]
      by (intro exI [of _ s])
        (simp add: L_bucket(1) L_getPrediction_spec [OF assms(1) s(2)] L_train_spec [OF assms(1) s(2)]
          L_inv_def)
  qed
  show "\<exists>s. G_run sg cs = Some s \<and>
              length (G_PHT s) = n \<and> in_range n (G_GHR s) \<and>
              in_range n (ucast (scast (G_PHTsize s) AND pc) XOR G_GHR s) \<and>
              G_getPrediction s pc \<noteq> None \<and> G_train s pc b \<noteq> None"
  proof -
    from G_reachable_inv [OF assms(1,3), of cs] obtain s where
      s: "G_run sg cs = Some s" "G_inv n s" by blast
    show ?thesis
      using s G_index(1) [OF assms(1) s(2), of pc]
      by (intro exI [of _ s])
        (simp add: G_getPrediction_spec [OF assms(1) s(2)] G_train_spec [OF assms(1) s(2)] G_inv_def)
  qed
  show "\<exists>s. T_run st cs = Some s \<and>
              length (T_PHT s) = n \<and>
              in_range n (ucast (scast (T_PHTsize s) AND pc)) \<and>
              length (L_PHT (lbranch s)) = n \<and> list_all (in_range n) (L_LHR (lbranch s)) \<and>
              in_range n (L_LHR (lbranch s) ! nat (sint (ucast (127 AND pc) :: cint))) \<and>
              length (G_PHT (gbranch s)) = n \<and> in_range n (G_GHR (gbranch s)) \<and>
              in_range n (ucast (scast (G_PHTsize (gbranch s)) AND pc) XOR G_GHR (gbranch s)) \<and>
              T_getPrediction s pc \<noteq> None \<and> T_train s pc b \<noteq> None"
  proof -
    from T_reachable_total [OF assms(1,4), of cs] obtain s where
      s: "T_run st cs = Some s" "T_inv n s" by blast
    have g: "G_inv n (gbranch s)" and l: "L_inv n (lbranch s)" and len: "length (T_PHT s) = n"
      using s(2) by (simp_all add: T_inv_def)
    obtain s' where t: "T_train s pc b = Some s'" using T_train_spec [OF assms(1) s(2)] by metis
    show ?thesis
      using s(1) len g l t T_sel(1) [OF assms(1) s(2), of pc] L_index(1) [OF assms(1) l, of pc]
        G_index(1) [OF assms(1) g, of pc]
      by (intro exI [of _ s])
        (simp add: L_bucket(1) T_getPrediction_spec [OF assms(1) s(2)] L_inv_def G_inv_def)
  qed
qed

theorem indices_in_range_witness:
  "valid_size 1024 \<and>
   LocalBranchPredictor 1024 \<lparr>uninit = 0, capacity = 4096\<rparr> = Some (fresh_local 1024) \<and>
   GshareBranchPredictor 1024 \<lparr>uninit = 0, capacity = 4096\<rparr> = Some (fresh_gshare 1024) \<and>
   TournamentBranchPredictor 1024 \<lparr>uninit = 0, capacity = 4096\<rparr>
     (Some \<lparr>uninit = 0, capacity = 4096\<rparr>) (Some \<lparr>uninit = 0, capacity = 4096\<rparr>)
     = Some (fresh_tournament 1024) \<and>
   ((\<exists>s. L_run (fresh_local 1024) [Predict 4101, Train 4101 True] = Some s \<and>
        length (L_PHT s) = 1024 \<and> list_all (in_range 1024) (L_LHR s) \<and>
        in_range 1024 (L_LHR s ! nat (sint (ucast (127 AND (4101::ADDRINT)) :: cint))) \<and>
        L_getPrediction s 4101 \<noteq> None \<and> L_train s 4101 False \<noteq> None) \<and>
    (\<exists>s. G_run (fresh_gshare 1024) [Predict 4101, Train 4101 True] = Some s \<and>
        length (G_PHT s) = 1024 \<and> in_range 1024 (G_GHR s) \<and>
        in_range 1024 (ucast (scast (G_PHTsize s) AND (4101::ADDRINT)) XOR G_GHR s) \<and>
        G_getPrediction s 4101 \<noteq> None \<and> G_train s 4101 False \<noteq> None) \<and>
    (\<exists>s. T_run (fresh_tournament 1024) [Predict 4101, Train 4101 True] = Some s \<and>
        length (T_PHT s) = 1024 \<and>
        in_range 1024 (ucast (scast (T_PHTsize s) AND (4101::ADDRINT))) \<and>
        length (L_PHT (lbranch s)) = 1024 \<and> list_all (in_range 1024) (L_LHR (lbranch s)) \<and>
        in_range 1024 (L_LHR (lbranch s) ! nat (sint (ucast (127 AND (4101::ADDRINT)) :: cint))) \<and>
        length (G_PHT (gbranch s)) = 1024 \<and> in_range 1024 (G_GHR (gbranch s)) \<and>
        in_range 1024 (ucast (scast (G_PHTsize (gbranch s)) AND (4101::ADDRINT)) XOR G_GHR (gbranch s)) \<and>
        T_getPrediction s 4101 \<noteq> None \<and> T_train s 4101 False \<noteq> None))"
proof -
  have v: "valid_size 1024" by (simp add: valid_size_def)
  have l: "LocalBranchPredictor 1024 \<lparr>uninit = 0, capacity = 4096\<rparr> = Some (fresh_local 1024)"
    by (simp add: LocalBranchPredictor_result fresh_local_def IndexMask_def)
  have g: "GshareBranchPredictor 1024 \<lparr>uninit = 0, capacity = 4096\<rparr> = Some (fresh_gshare 1024)"
    by (simp add: GshareBranchPredictor_result fresh_gshare_def IndexMask_def)
  have t: "TournamentBranchPredictor 1024 \<lparr>uninit = 0, capacity = 4096\<rparr>
     (Some \<lparr>uninit = 0, capacity = 4096\<rparr>) (Some \<lparr>uninit = 0, capacity = 4096\<rparr>)
     = Some (fresh_tournament 1024)"
    using l g by (simp add: TournamentBranchPredictor_Some fresh_tournament_def IndexMask_def)
  show ?thesis
    by (intro conjI [OF v] conjI [OF l] conjI [OF g] conjI [OF t]
        indices_in_range [OF v l g t, of "[Predict 4101, Train 4101 True]" 4101 False])
qed

subsection \<open>C10: training before the first prediction\<close>

text \<open>
  Claim C10: on a freshly constructed tournament predictor of a valid table size, whose
  \<^verbatim>\<open>used\<close> member is 2 and whose sub-predictors are what their constructors returned,
  a \<^verbatim>\<open>train\<close> call made before any \<^verbatim>\<open>getPrediction\<close>, and any number of them,
  returns and leaves the selector table exactly as constructed (every counter 3) and
  \<^verbatim>\<open>used\<close> at 2, while both sub-predictors are trained: each is in the state the same
  calls give that freshly constructed sub-predictor on its own.
\<close>

theorem train_before_first_prediction:
  assumes "valid_size n"
    and "TournamentBranchPredictor n m new_l new_g = Some s0"
    and "list_all is_Train cs"
  shows "used s0 = 2 \<and>
         (\<exists>ml mg. new_l = Some ml \<and> LocalBranchPredictor n ml = Some (lbranch s0) \<and>
                  new_g = Some mg \<and> GshareBranchPredictor n mg = Some (gbranch s0)) \<and>
         (\<exists>s. T_run s0 cs = Some s \<and>
              T_PHT s = T_PHT s0 \<and> T_PHT s = replicate n 3 \<and> used s = 2 \<and>
              G_run (gbranch s0) cs = Some (gbranch s) \<and>
              L_run (lbranch s0) cs = Some (lbranch s))"
proof -
  have f: "s0 = fresh_tournament n" by (rule TournamentBranchPredictor_fresh [OF assms(1,2)])
  have u: "used s0 = 2" and p: "T_PHT s0 = replicate n 3"
    by (simp_all add: f fresh_tournament_def)
  have inv: "T_inv n s0" unfolding f by (rule fresh_tournament_inv(1) [OF assms(1)])
  have sub: "\<exists>ml mg. new_l = Some ml \<and> LocalBranchPredictor n ml = Some (lbranch s0) \<and>
                  new_g = Some mg \<and> GshareBranchPredictor n mg = Some (gbranch s0)"
    using TournamentBranchPredictor_result [OF assms(2)] by auto
  from T_run_unused [OF assms(1) inv u assms(3)] obtain s where
    "T_run s0 cs = Some s" "used s = 2" "T_PHT s = T_PHT s0"
    "G_run (gbranch s0) cs = Some (gbranch s)" "L_run (lbranch s0) cs = Some (lbranch s)"
    by blast
  then have "\<exists>s. T_run s0 cs = Some s \<and>
              T_PHT s = T_PHT s0 \<and> T_PHT s = replicate n 3 \<and> used s = 2 \<and>
              G_run (gbranch s0) cs = Some (gbranch s) \<and>
              L_run (lbranch s0) cs = Some (lbranch s)"
    using p by auto
  then show ?thesis using u sub by (intro conjI)
qed

theorem train_before_first_prediction_witness:
  "valid_size 128 \<and>
   TournamentBranchPredictor 128 \<lparr>uninit = 0, capacity = 128\<rparr>
     (Some \<lparr>uninit = 0, capacity = 128\<rparr>) (Some \<lparr>uninit = 0, capacity = 128\<rparr>)
     = Some (fresh_tournament 128) \<and>
   list_all is_Train [Train 5 True] \<and>
   used (fresh_tournament 128) = 2 \<and>
   (\<exists>s. T_train (fresh_tournament 128) 5 True = Some s \<and>
        T_PHT s = replicate 128 3 \<and> used s = 2 \<and>
        G_train (fresh_gshare 128) 5 True = Some (gbranch s) \<and>
        L_train (fresh_local 128) 5 True = Some (lbranch s))"
proof -
  have v: "valid_size 128" by (simp add: valid_size_def)
  have cl: "LocalBranchPredictor 128 \<lparr>uninit = 0, capacity = 128\<rparr> = Some (fresh_local 128)"
    by (simp add: LocalBranchPredictor_result fresh_local_def IndexMask_def)
  have cg: "GshareBranchPredictor 128 \<lparr>uninit = 0, capacity = 128\<rparr> = Some (fresh_gshare 128)"
    by (simp add: GshareBranchPredictor_result fresh_gshare_def IndexMask_def)
  have c: "TournamentBranchPredictor 128 \<lparr>uninit = 0, capacity = 128\<rparr>
     (Some \<lparr>uninit = 0, capacity = 128\<rparr>) (Some \<lparr>uninit = 0, capacity = 128\<rparr>)
     = Some (fresh_tournament 128)"
    using cl cg by (simp add: TournamentBranchPredictor_Some fresh_tournament_def IndexMask_def)
  have t: "list_all is_Train [Train 5 True]" by simp
  have f: "gbranch (fresh_tournament 128) = fresh_gshare 128"
    "lbranch (fresh_tournament 128) = fresh_local 128"
    by (simp_all add: fresh_tournament_def)
  from train_before_first_prediction [OF v c t]
  have "used (fresh_tournament 128) = 2"
    and "\<exists>s. T_train (fresh_tournament 128) 5 True = Some s \<and>
        T_PHT s = replicate 128 3 \<and> used s = 2 \<and>
        G_train (fresh_gshare 128) 5 True = Some (gbranch s) \<and>
        L_train (fresh_local 128) 5 True = Some (lbranch s)"
    unfolding f by (auto split: option.splits)
  then show ?thesis using v c t by (intro conjI)
qed

end
